theory Spec2Isabelle
  imports Main
begin

section \<open>Data model of the WebKit FrameManager\<close>

text \<open>
  The FrameManager keeps JavaScript objects (Frames, execution contexts) that are compared
  by identity and mutated in place. A Frame object is modelled by a handle: its index in
  a heap of Frame records that only grows (\<open>new frames.Frame\<close> appends one record).
  The \<open>Map\<close> \<open>_frames\<close> is a partial function from protocol frame ids to handles; the
  \<open>Map\<close> \<open>_contextIdToContext\<close>, which the code iterates, is an association list in
  insertion order. Everything the manager and the page emit goes to one log, oldest first.
  The counter \<open>lastDocumentId\<close> is a variable of the module, not of a manager: every
  FrameManager of the process reads and increments the same variable. It is therefore not
  a field of the manager's state; the handler that uses it takes its value and returns the
  new one, and the state of a process holds it beside the managers.
\<close>

type_synonym handle = nat

datatype LifecycleEvent = Load | DOMContentLoaded

datatype Error = TypeError | AssertionError | SyntaxError | NoReturn

datatype ContextType = MainWorld | UtilityWorld

record Frame =
  parentFrame :: "handle option"
  childFrames :: "handle list"
  data_id :: string
  frame_url :: string
  frame_name :: string
  frame_lastDocumentId :: string
  expectedDocumentId :: "string option"
  firedLifecycleEvents :: "LifecycleEvent set"
  detached :: bool
  mainContext :: "nat option"
  utilityContext :: "nat option"

record ExecutionContext =
  contextId :: nat
  context_frame :: handle

text \<open>Console payloads: a remote object carries a plain value or the id of an object in
  the page; a handle binds a remote object to the execution context it lives in.\<close>

datatype Value = JSUndefined | JSString string | JSNumber int | JSBoolean bool

record RemoteObject =
  ro_value :: Value
  ro_objectId :: "string option"

record JSHandle =
  handle_context :: nat
  handle_remoteObject :: RemoteObject

record Location =
  loc_url :: string
  loc_lineNumber :: int
  loc_columnNumber :: int

datatype Event =
    FM_FrameNavigatedWithinDocument handle
  | FM_FrameAttached handle
  | FM_FrameDetached handle
  | FM_FrameNavigated handle
  | FM_LifecycleEvent handle
  | Page_FrameAttached handle
  | Page_FrameDetached handle
  | Page_FrameNavigated handle
  | Page_DOMContentLoaded
  | Page_Load
  | Page_BindingCalled Value "ExecutionContext option"
  | Page_ConsoleMessage string "JSHandle list" Location "string option"

record FrameManager =
  heap :: "Frame list"
  frames_map :: "string \<rightharpoonup> handle"
  contextIdToContext :: "(nat \<times> ExecutionContext) list"
  mainFrame :: "handle option"
  disposedContexts :: "nat list"
  emitted :: "Event list"

record FramePayload =
  payload_id :: string
  payload_parentId :: "string option"
  payload_loaderId :: string
  payload_url :: string
  payload_name :: string

record ContextPayload =
  cp_id :: nat
  cp_frameId :: string
  cp_isPageContext :: bool
  cp_name :: string

definition UTILITY_WORLD_NAME :: string where
  "UTILITY_WORLD_NAME = ''__playwright_utility_world__''"

definition BINDING_CALL_MESSAGE :: string where
  "BINDING_CALL_MESSAGE = ''__playwright_binding_call__''"

text \<open>The state of a freshly constructed FrameManager: no frame, no context, and
  \<open>_mainFrame\<close> not yet assigned.\<close>

definition initial :: FrameManager where
  "initial = \<lparr>heap = [], frames_map = Map.empty, contextIdToContext = [],
     mainFrame = None, disposedContexts = [], emitted = []\<rparr>"

text \<open>JavaScript truthiness of an optional string: \<open>undefined\<close>, \<open>null\<close> and the empty
  string are falsy.\<close>

definition truthy :: "string option \<Rightarrow> bool" where
  "truthy x = (case x of None \<Rightarrow> False | Some v \<Rightarrow> v \<noteq> [])"

definition emit :: "Event \<Rightarrow> FrameManager \<Rightarrow> FrameManager" where
  "emit e s = s\<lparr>emitted := emitted s @ [e]\<rparr>"

subsection \<open>The Frame class\<close>

text \<open>
  Modelled from the spec: the class \<open>frames.Frame\<close> (module \<open>../frames\<close>) is not among the
  sources. The spec gives a Frame a parent back-reference, an ordered set of child Frames,
  the last committed url and name, the last committed and expected document id, the set of
  lifecycle events fired for the current document and a detached flag; a Frame is linked
  under its parent when it is created, a child's removal takes it out of the tree, and at
  most one context per world is current. The notification of navigation watchers that
  these methods also perform is left out here.
\<close>

definition newFrame :: "handle option \<Rightarrow> Frame" where
  "newFrame parent = \<lparr>parentFrame = parent, childFrames = [], data_id = [],
     frame_url = [], frame_name = [], frame_lastDocumentId = [], expectedDocumentId = None,
     firedLifecycleEvents = {}, detached = False, mainContext = None,
     utilityContext = None\<rparr>"

definition Frame_new :: "handle option \<Rightarrow> Frame list \<Rightarrow> handle \<times> Frame list" where
  "Frame_new parent hp =
     (let frame = length hp;
          hp1 = hp @ [newFrame parent]
      in (frame, (case parent of None \<Rightarrow> hp1
            | Some p \<Rightarrow> hp1[p := (hp1 ! p)\<lparr>childFrames := childFrames (hp1 ! p) @ [frame]\<rparr>])))"

definition Frame_onDetached :: "handle \<Rightarrow> Frame list \<Rightarrow> Frame list" where
  "Frame_onDetached frame hp =
     (let hp1 = (case parentFrame (hp ! frame) of None \<Rightarrow> hp
            | Some p \<Rightarrow> hp[p := (hp ! p)\<lparr>childFrames := removeAll frame (childFrames (hp ! p))\<rparr>])
      in hp1[frame := (hp1 ! frame)\<lparr>detached := True, parentFrame := None\<rparr>])"

definition Frame_lifecycleEvent :: "handle \<Rightarrow> LifecycleEvent \<Rightarrow> Frame list \<Rightarrow> Frame list" where
  "Frame_lifecycleEvent frame e hp =
     hp[frame := (hp ! frame)\<lparr>firedLifecycleEvents := insert e (firedLifecycleEvents (hp ! frame))\<rparr>]"

definition Frame_onExpectedNewDocumentNavigation :: "handle \<Rightarrow> string \<Rightarrow> Frame list \<Rightarrow> Frame list" where
  "Frame_onExpectedNewDocumentNavigation frame documentId hp =
     hp[frame := (hp ! frame)\<lparr>expectedDocumentId := Some documentId\<rparr>]"

definition Frame_onCommittedNewDocumentNavigation ::
    "handle \<Rightarrow> string \<Rightarrow> string \<Rightarrow> string \<Rightarrow> Frame list \<Rightarrow> Frame list" where
  "Frame_onCommittedNewDocumentNavigation frame u n documentId hp =
     hp[frame := (hp ! frame)\<lparr>frame_url := u, frame_name := n,
          frame_lastDocumentId := documentId, firedLifecycleEvents := {}\<rparr>]"

definition Frame_onCommittedSameDocumentNavigation :: "handle \<Rightarrow> string \<Rightarrow> Frame list \<Rightarrow> Frame list" where
  "Frame_onCommittedSameDocumentNavigation frame u hp = hp[frame := (hp ! frame)\<lparr>frame_url := u\<rparr>]"

definition Frame_contextCreated :: "handle \<Rightarrow> ContextType \<Rightarrow> nat \<Rightarrow> Frame list \<Rightarrow> Frame list" where
  "Frame_contextCreated frame w c hp =
     (case w of
        MainWorld \<Rightarrow> (if mainContext (hp ! frame) = None
                       then hp[frame := (hp ! frame)\<lparr>mainContext := Some c\<rparr>] else hp)
      | UtilityWorld \<Rightarrow> (if utilityContext (hp ! frame) = None
                       then hp[frame := (hp ! frame)\<lparr>utilityContext := Some c\<rparr>] else hp))"

definition Frame_contextDestroyed :: "handle \<Rightarrow> nat \<Rightarrow> Frame list \<Rightarrow> Frame list" where
  "Frame_contextDestroyed frame c hp =
     (let f = hp ! frame;
          f1 = (if mainContext f = Some c then f\<lparr>mainContext := None\<rparr> else f);
          f2 = (if utilityContext f1 = Some c then f1\<lparr>utilityContext := None\<rparr> else f1)
      in hp[frame := f2])"

section \<open>The frame registry\<close>

text \<open>\<open>frame(frameId)\<close>: \<open>this._frames.get(frameId) || null\<close>; \<open>null\<close> is \<open>None\<close>.\<close>

definition frame :: "string \<Rightarrow> FrameManager \<Rightarrow> handle option" where
  "frame frameId s = frames_map s frameId"

definition frameData_id :: "handle \<Rightarrow> FrameManager \<Rightarrow> string" where
  "frameData_id f s = data_id (heap s ! f)"

text \<open>\<open>_onFrameAttached\<close>. The assertion is the first statement, so a failing call leaves
  the state as it was. An absent, empty or unregistered parent id gives no parent frame,
  and then the new frame is installed as the main frame.\<close>

definition onFrameAttached :: "string \<Rightarrow> string option \<Rightarrow> FrameManager \<Rightarrow> Error + FrameManager" where
  "onFrameAttached frameId parentFrameId s =
     (if frames_map s frameId \<noteq> None then Inl AssertionError
      else
        let parent = (if truthy parentFrameId then frames_map s (the parentFrameId) else None);
            (f, hp) = Frame_new parent (heap s);
            hp1 = hp[f := (hp ! f)\<lparr>data_id := frameId\<rparr>];
            s1 = s\<lparr>heap := hp1, frames_map := (frames_map s)(frameId \<mapsto> f)\<rparr>;
            s2 = (if parent = None then s1\<lparr>mainFrame := Some f\<rparr> else s1)
        in Inr (emit (Page_FrameAttached f) (emit (FM_FrameAttached f) s2)))"

text \<open>One node of \<open>_removeFramesRecursively\<close>, after its children: detach the frame,
  delete its id from the registry, emit on the manager and on the page.\<close>

definition removeFrame :: "handle \<Rightarrow> FrameManager \<Rightarrow> FrameManager" where
  "removeFrame f s =
     (let s1 = s\<lparr>heap := Frame_onDetached f (heap s)\<rparr>;
          s2 = s1\<lparr>frames_map := (frames_map s1)(data_id (heap s1 ! f) := None)\<rparr>
      in emit (Page_FrameDetached f) (emit (FM_FrameDetached f) s2))"

text \<open>
  \<open>_removeFramesRecursively\<close> recurses through object references, so nothing in the
  function itself bounds the recursion. The model carries fuel: \<open>None\<close> means that the call
  did not return within it. \<open>removeFrames\<close> is the \<open>for\<close> loop over the array that
  \<open>childFrames()\<close> returned, a snapshot taken before the first child is removed.
\<close>

fun removeFramesRecursively :: "nat \<Rightarrow> handle \<Rightarrow> FrameManager \<Rightarrow> FrameManager option"
and removeFrames :: "nat \<Rightarrow> handle list \<Rightarrow> FrameManager \<Rightarrow> FrameManager option" where
  "removeFramesRecursively 0 f s = None"
| "removeFramesRecursively (Suc n) f s =
     (case removeFrames n (childFrames (heap s ! f)) s of
        None \<Rightarrow> None
      | Some s1 \<Rightarrow> Some (removeFrame f s1))"
| "removeFrames n [] s = Some s"
| "removeFrames n (c # cs) s =
     (case removeFramesRecursively n c s of
        None \<Rightarrow> None
      | Some s1 \<Rightarrow> removeFrames n cs s1)"

text \<open>The operations below give the recursion as much fuel as there are Frame objects;
  \<open>NoReturn\<close> stands for a call that did not come back.\<close>

definition onFrameDetached :: "string \<Rightarrow> FrameManager \<Rightarrow> Error + FrameManager" where
  "onFrameDetached frameId s =
     (case frames_map s frameId of
        None \<Rightarrow> Inr s
      | Some f \<Rightarrow> (case removeFramesRecursively (length (heap s)) f s of
                     None \<Rightarrow> Inl NoReturn
                   | Some s1 \<Rightarrow> Inr s1))"

text \<open>The loop of \<open>_onFrameNavigated\<close> over the live contexts: every context of the
  navigating frame is disposed, deleted from the map and reported to the frame.\<close>

definition destroyContext :: "handle \<Rightarrow> nat \<times> ExecutionContext \<Rightarrow> FrameManager \<Rightarrow> FrameManager" where
  "destroyContext f kc s =
     (if context_frame (snd kc) = f
      then s\<lparr>disposedContexts := disposedContexts s @ [contextId (snd kc)],
             contextIdToContext := filter (\<lambda>e. fst e \<noteq> contextId (snd kc)) (contextIdToContext s),
             heap := Frame_contextDestroyed f (contextId (snd kc)) (heap s)\<rparr>
      else s)"

definition destroyContexts :: "handle \<Rightarrow> FrameManager \<Rightarrow> FrameManager" where
  "destroyContexts f s = fold (destroyContext f) (contextIdToContext s) s"

text \<open>Decimal digits of a number, as string concatenation with a number produces them.\<close>

fun string_of_nat :: "nat \<Rightarrow> string" where
  "string_of_nat n =
     (if n < 10 then [char_of (48 + n)]
      else string_of_nat (n div 10) @ [char_of (48 + n mod 10)])"

declare string_of_nat.simps [simp del]

definition newDocumentId :: "string \<Rightarrow> nat \<Rightarrow> string" where
  "newDocumentId loaderId n = loaderId @ ''::'' @ string_of_nat n"

text \<open>
  \<open>++lastDocumentId\<close> on a JavaScript number, which is a double: below 2^53 the increment
  is exact; at 2^53 = 9007199254740992 the sum is not a double and rounds back, so the
  variable stays where it is. Up to there the number prints as its decimal digits.
\<close>

definition increment :: "nat \<Rightarrow> nat" where
  "increment n = (if n < 9007199254740992 then n + 1 else n)"

text \<open>
  \<open>_onFrameNavigated\<close>. The target is \<open>_mainFrame\<close> when the payload has no parent id and
  the registry entry of the payload id otherwise; either may be \<open>undefined\<close>, and then
  \<open>frame.childFrames()\<close> throws before anything is changed. \<open>counter\<close> is the value of the
  module's \<open>lastDocumentId\<close> when the handler is called; the result carries its new value.
\<close>

definition onFrameNavigated ::
    "FramePayload \<Rightarrow> bool \<Rightarrow> nat \<Rightarrow> FrameManager \<Rightarrow> Error + nat \<times> FrameManager" where
  "onFrameNavigated framePayload init counter s =
     (let isMainFrame = \<not> truthy (payload_parentId framePayload) in
      case (if isMainFrame then mainFrame s else frames_map s (payload_id framePayload)) of
        None \<Rightarrow> Inl TypeError
      | Some f \<Rightarrow>
         (case removeFrames (length (heap s)) (childFrames (heap s ! f)) s of
            None \<Rightarrow> Inl NoReturn
          | Some s1 \<Rightarrow>
             let s2 = (if isMainFrame
                       then s1\<lparr>heap := (heap s1)[f := (heap s1 ! f)\<lparr>data_id := payload_id framePayload\<rparr>],
                               frames_map := ((frames_map s1)(data_id (heap s1 ! f) := None))
                                               (payload_id framePayload \<mapsto> f)\<rparr>
                       else s1);
                 s3 = destroyContexts f s2;
                 counter1 = increment counter;
                 documentId = newDocumentId (payload_loaderId framePayload) counter1;
                 s5 = (if \<not> init
                       then s3\<lparr>heap := Frame_onExpectedNewDocumentNavigation f documentId (heap s3)\<rparr>
                       else s3);
                 s6 = s5\<lparr>heap := Frame_onCommittedNewDocumentNavigation f
                         (payload_url framePayload) (payload_name framePayload) documentId (heap s5)\<rparr>
             in Inr (counter1, emit (Page_FrameNavigated f) (emit (FM_FrameNavigated f) s6))))"

definition onFrameNavigatedWithinDocument :: "string \<Rightarrow> string \<Rightarrow> FrameManager \<Rightarrow> Error + FrameManager" where
  "onFrameNavigatedWithinDocument frameId u s =
     (case frames_map s frameId of
        None \<Rightarrow> Inr s
      | Some f \<Rightarrow>
          Inr (emit (Page_FrameNavigated f) (emit (FM_FrameNavigated f)
                (emit (FM_FrameNavigatedWithinDocument f)
                   (s\<lparr>heap := Frame_onCommittedSameDocumentNavigation f u (heap s)\<rparr>)))))"

definition onFrameStoppedLoading :: "string \<Rightarrow> FrameManager \<Rightarrow> Error + FrameManager" where
  "onFrameStoppedLoading frameId s =
     (case frames_map s frameId of
        None \<Rightarrow> Inr s
      | Some f \<Rightarrow>
          let hasDOMContentLoaded = (DOMContentLoaded \<in> firedLifecycleEvents (heap s ! f));
              hasLoad = (Load \<in> firedLifecycleEvents (heap s ! f));
              s1 = s\<lparr>heap := Frame_lifecycleEvent f DOMContentLoaded (heap s)\<rparr>;
              s2 = s1\<lparr>heap := Frame_lifecycleEvent f Load (heap s1)\<rparr>;
              s3 = emit (FM_LifecycleEvent f) s2;
              s4 = (if mainFrame s3 = Some f \<and> \<not> hasDOMContentLoaded
                    then emit Page_DOMContentLoaded s3 else s3);
              s5 = (if mainFrame s4 = Some f \<and> \<not> hasLoad then emit Page_Load s4 else s4)
          in Inr s5)"

definition onLifecycleEvent :: "string \<Rightarrow> LifecycleEvent \<Rightarrow> FrameManager \<Rightarrow> Error + FrameManager" where
  "onLifecycleEvent frameId e s =
     (case frames_map s frameId of
        None \<Rightarrow> Inr s
      | Some f \<Rightarrow>
          let s1 = s\<lparr>heap := Frame_lifecycleEvent f e (heap s)\<rparr>;
              s2 = emit (FM_LifecycleEvent f) s1
          in Inr (if mainFrame s2 = Some f
                  then (let s3 = (if e = Load then emit Page_Load s2 else s2)
                        in (if e = DOMContentLoaded then emit Page_DOMContentLoaded s3 else s3))
                  else s2))"

section \<open>The execution context registry\<close>

definition onExecutionContextCreated :: "ContextPayload \<Rightarrow> FrameManager \<Rightarrow> FrameManager" where
  "onExecutionContextCreated contextPayload s =
     (if map_of (contextIdToContext s) (cp_id contextPayload) \<noteq> None then s
      else case frames_map s (cp_frameId contextPayload) of
        None \<Rightarrow> s
      | Some f \<Rightarrow>
          let context = \<lparr>contextId = cp_id contextPayload, context_frame = f\<rparr>;
              hp = (if cp_isPageContext contextPayload
                    then Frame_contextCreated f MainWorld (contextId context) (heap s)
                    else if cp_name contextPayload = UTILITY_WORLD_NAME
                    then Frame_contextCreated f UtilityWorld (contextId context) (heap s)
                    else heap s)
          in s\<lparr>heap := hp,
               contextIdToContext := contextIdToContext s @ [(cp_id contextPayload, context)]\<rparr>)"

section \<open>Protocol events, reachable states and processes\<close>

text \<open>
  The session listeners hand each protocol event to one handler. Only
  \<open>_onFrameNavigated\<close> touches the module's counter; \<open>call\<close> gives every handler the value
  of the counter and returns the value it leaves.

  \<open>calls\<close> delivers a sequence of events to one manager. A handler that throws has changed
  nothing by then, and the next event is delivered to the state as it was. Other managers
  of the process may move the counter between two events of this manager, so each event
  comes with the value the counter has when it is handled. A manager's state is reachable
  when it is the result of some such sequence delivered to a new manager.
\<close>

datatype Call =
    Attach string "string option"
  | Navigate FramePayload bool
  | NavigateWithinDocument string string
  | Detach string
  | StoppedLoading string
  | Lifecycle string LifecycleEvent
  | ContextCreated ContextPayload

definition keeping :: "nat \<Rightarrow> Error + FrameManager \<Rightarrow> Error + nat \<times> FrameManager" where
  "keeping counter r = (case r of Inl e \<Rightarrow> Inl e | Inr s \<Rightarrow> Inr (counter, s))"

fun call :: "Call \<Rightarrow> nat \<Rightarrow> FrameManager \<Rightarrow> Error + nat \<times> FrameManager" where
  "call (Attach frameId parentFrameId) counter s = keeping counter (onFrameAttached frameId parentFrameId s)"
| "call (Navigate framePayload init) counter s = onFrameNavigated framePayload init counter s"
| "call (NavigateWithinDocument frameId u) counter s =
     keeping counter (onFrameNavigatedWithinDocument frameId u s)"
| "call (Detach frameId) counter s = keeping counter (onFrameDetached frameId s)"
| "call (StoppedLoading frameId) counter s = keeping counter (onFrameStoppedLoading frameId s)"
| "call (Lifecycle frameId e) counter s = keeping counter (onLifecycleEvent frameId e s)"
| "call (ContextCreated contextPayload) counter s =
     Inr (counter, onExecutionContextCreated contextPayload s)"

fun calls :: "(nat \<times> Call) list \<Rightarrow> FrameManager \<Rightarrow> FrameManager" where
  "calls [] s = s"
| "calls (nc # cs) s =
     (case call (snd nc) (fst nc) s of Inl e \<Rightarrow> calls cs s | Inr r \<Rightarrow> calls cs (snd r))"

definition reachable :: "FrameManager \<Rightarrow> bool" where
  "reachable s \<longleftrightarrow> (\<exists>cs. calls cs initial = s)"

text \<open>
  A process: the module's counter, which starts at 0, and the FrameManagers constructed so
  far. An event of the process constructs a manager or has one of the managers handle a
  protocol event, with the counter as it stands.
\<close>

record Process =
  lastDocumentId :: nat
  frameManagers :: "FrameManager list"

datatype ProcessEvent = NewFrameManager | Handle nat Call

definition processStart :: Process where
  "processStart = \<lparr>lastDocumentId = 0, frameManagers = []\<rparr>"

fun processEvent :: "ProcessEvent \<Rightarrow> Process \<Rightarrow> Process" where
  "processEvent NewFrameManager P = P\<lparr>frameManagers := frameManagers P @ [initial]\<rparr>"
| "processEvent (Handle i c) P =
     (if i < length (frameManagers P)
      then (case call c (lastDocumentId P) (frameManagers P ! i) of
              Inl e \<Rightarrow> P
            | Inr r \<Rightarrow> P\<lparr>lastDocumentId := fst r, frameManagers := (frameManagers P)[i := snd r]\<rparr>)
      else P)"

fun processEvents :: "ProcessEvent list \<Rightarrow> Process \<Rightarrow> Process" where
  "processEvents [] P = P"
| "processEvents (e # es) P = processEvents es (processEvent e P)"

definition reachableProcess :: "Process \<Rightarrow> bool" where
  "reachableProcess P \<longleftrightarrow> (\<exists>es. processEvents es processStart = P)"

section \<open>Well-formed states\<close>

text \<open>
  In a well-formed heap the child lists have no repetition, every child is a Frame object
  created after its parent and points back to it, and every parent lists its child.
  In a well-formed registry every id maps to an existing Frame that carries this id, and
  the main frame, once assigned, has no parent.
\<close>

definition heap_ok :: "Frame list \<Rightarrow> bool" where
  "heap_ok hp \<longleftrightarrow>
     (\<forall>h < length hp.
        distinct (childFrames (hp ! h)) \<and>
        (\<forall>c \<in> set (childFrames (hp ! h)). h < c \<and> c < length hp \<and> parentFrame (hp ! c) = Some h) \<and>
        (\<forall>p. parentFrame (hp ! h) = Some p \<longrightarrow> p < h \<and> h \<in> set (childFrames (hp ! p))))"

definition registry_ok :: "FrameManager \<Rightarrow> bool" where
  "registry_ok s \<longleftrightarrow>
     (\<forall>k h. frames_map s k = Some h \<longrightarrow> h < length (heap s) \<and> data_id (heap s ! h) = k)"

definition main_ok :: "FrameManager \<Rightarrow> bool" where
  "main_ok s \<longleftrightarrow>
     (\<forall>m. mainFrame s = Some m \<longrightarrow> m < length (heap s) \<and> parentFrame (heap s ! m) = None)"

definition invariant :: "FrameManager \<Rightarrow> bool" where
  "invariant s \<longleftrightarrow> heap_ok (heap s) \<and> registry_ok s \<and> main_ok s"

definition shape :: "Frame list \<Rightarrow> (handle option \<times> handle list \<times> string) list" where
  "shape hp = map (\<lambda>f. (parentFrame f, childFrames f, data_id f)) hp"

text \<open>A page with a main frame, one child frame and a page context on the main frame,
  after the main frame's DOMContentLoaded.\<close>

definition example_page :: FrameManager where
  "example_page = calls [(0, Attach ''main'' None), (0, Attach ''child'' (Some ''main'')),
      (0, ContextCreated \<lparr>cp_id = 7, cp_frameId = ''main'', cp_isPageContext = True, cp_name = []\<rparr>),
      (0, Lifecycle ''main'' DOMContentLoaded)] initial"

text \<open>A second frame attached under a parent id that is not registered.\<close>

definition example_two_roots :: FrameManager where
  "example_two_roots = calls [(0, Attach ''A'' None), (0, Attach ''B'' (Some ''unknown''))] initial"

text \<open>The frame that \<open>_onFrameNavigated\<close> picks for a payload: \<open>_mainFrame\<close> for a payload without
  parent id, the registry entry of the payload id otherwise.\<close>

definition navigationTarget :: "FramePayload \<Rightarrow> FrameManager \<Rightarrow> handle option" where
  "navigationTarget p s =
     (if \<not> truthy (payload_parentId p) then mainFrame s else frames_map s (payload_id p))"

text \<open>A page with its main frame only, a main-frame payload, and the page after the navigation.\<close>

definition example_main :: FrameManager where
  "example_main = calls [(0, Attach ''main'' None)] initial"

definition example_payload :: FramePayload where
  "example_payload = \<lparr>payload_id = ''main'', payload_parentId = None, payload_loaderId = ''L1'',
       payload_url = ''https://a.example/'', payload_name = []\<rparr>"

definition example_navigated :: FrameManager where
  "example_navigated = calls [(0, Navigate example_payload False)] example_main"

text \<open>A process with two managers, each with its main frame attached.\<close>

definition example_process :: Process where
  "example_process = processEvents [NewFrameManager, NewFrameManager,
      Handle 0 (Attach ''main'' None), Handle 1 (Attach ''main'' None)] processStart"

text \<open>The options of a navigation call; an omitted property is \<open>None\<close>.\<close>

record NavigateOptions =
  timeout :: "nat option"
  waitUntil :: "LifecycleEvent list option"

text \<open>Modelled from the spec: the class \<open>frames.LifecycleWatcher\<close> (module \<open>../frames\<close>) is not
  among the sources. The spec makes a watcher from a target frame, a set of required
  lifecycle events and a timeout; disposing it unsubscribes it. The record holds what the
  constructor is given and whether \<open>dispose\<close> has been called; how the watcher decides that
  a navigation is complete is not part of the model.\<close>

record LifecycleWatcher =
  watcher_frame :: handle
  expectedLifecycle :: "LifecycleEvent list"
  watcher_timeout :: nat
  disposed :: bool

text \<open>What an awaited promise does: it resolves with a value, rejects with an error (here its
  message), or stays pending, and then the call never gets past the \<open>await\<close>.\<close>

datatype 'a Awaited = Resolved 'a | Rejected string | Pending

definition LifecycleWatcher_new :: "handle \<Rightarrow> LifecycleEvent list \<Rightarrow> nat \<Rightarrow> LifecycleWatcher" where
  "LifecycleWatcher_new f w t =
     \<lparr>watcher_frame = f, expectedLifecycle = w, watcher_timeout = t, disposed = False\<rparr>"

definition dispose :: "LifecycleWatcher \<Rightarrow> LifecycleWatcher" where
  "dispose w = w\<lparr>disposed := True\<rparr>"

text \<open>The navigation calls. The outcomes of the promises they await are arguments: the
  \<open>Page.navigate\<close> send or the evaluation, and the race over the watcher's promises, whose
  value is an error or null. The result is what the call returns or throws (\<open>None\<close> when it
  never exits) and the watcher as the call leaves it.\<close>

definition navigateFrame ::
  "nat \<Rightarrow> handle \<Rightarrow> string \<Rightarrow> NavigateOptions \<Rightarrow> unit Awaited \<Rightarrow> string option Awaited \<Rightarrow> 'r option
     \<Rightarrow> (string + 'r option) option \<times> LifecycleWatcher" where
  "navigateFrame navigationTimeout f u options sent raced response =
     (let timeout = (case timeout options of None \<Rightarrow> navigationTimeout | Some t \<Rightarrow> t);
          waitUntil = (case waitUntil options of None \<Rightarrow> [Load] | Some w \<Rightarrow> w);
          watchDog = LifecycleWatcher_new f waitUntil timeout
      in case sent of
           Pending \<Rightarrow> (None, watchDog)
         | Rejected e \<Rightarrow> (Some (Inl e), watchDog)
         | Resolved _ \<Rightarrow>
            (case raced of
               Pending \<Rightarrow> (None, watchDog)
             | Rejected e \<Rightarrow> (Some (Inl e), watchDog)
             | Resolved error \<Rightarrow>
                (let watchDog1 = dispose watchDog
                 in case error of
                      Some e \<Rightarrow> (Some (Inl e), watchDog1)
                    | None \<Rightarrow> (Some (Inr response), watchDog1))))"

definition waitForFrameNavigation ::
  "nat \<Rightarrow> handle \<Rightarrow> NavigateOptions \<Rightarrow> string option Awaited \<Rightarrow> 'r option
     \<Rightarrow> (string + 'r option) option \<times> LifecycleWatcher" where
  "waitForFrameNavigation navigationTimeout f options raced response =
     (let timeout = (case timeout options of None \<Rightarrow> navigationTimeout | Some t \<Rightarrow> t);
          waitUntil = (case waitUntil options of None \<Rightarrow> [Load] | Some w \<Rightarrow> w);
          watchDog = LifecycleWatcher_new f waitUntil timeout
      in case raced of
           Pending \<Rightarrow> (None, watchDog)
         | Rejected e \<Rightarrow> (Some (Inl e), watchDog)
         | Resolved error \<Rightarrow>
            (let watchDog1 = dispose watchDog
             in case error of
                  Some e \<Rightarrow> (Some (Inl e), watchDog1)
                | None \<Rightarrow> (Some (Inr response), watchDog1)))"

definition setFrameContent ::
  "nat \<Rightarrow> handle \<Rightarrow> string \<Rightarrow> NavigateOptions \<Rightarrow> unit Awaited \<Rightarrow> string option Awaited
     \<Rightarrow> (string + unit) option \<times> LifecycleWatcher" where
  "setFrameContent navigationTimeout f html options evaluated raced =
     (let timeout = (case timeout options of None \<Rightarrow> navigationTimeout | Some t \<Rightarrow> t);
          waitUntil = (case waitUntil options of None \<Rightarrow> [Load] | Some w \<Rightarrow> w);
          watchDog = LifecycleWatcher_new f waitUntil timeout
      in case evaluated of
           Pending \<Rightarrow> (None, watchDog)
         | Rejected e \<Rightarrow> (Some (Inl e), watchDog)
         | Resolved _ \<Rightarrow>
            (case raced of
               Pending \<Rightarrow> (None, watchDog)
             | Rejected e \<Rightarrow> (Some (Inl e), watchDog)
             | Resolved error \<Rightarrow>
                (let watchDog1 = dispose watchDog
                 in case error of
                      Some e \<Rightarrow> (Some (Inl e), watchDog1)
                    | None \<Rightarrow> (Some (Inr ()), watchDog1))))"

text \<open>The payload of \<open>Console.messageAdded\<close>; \<open>parameters\<close> may be absent.\<close>

record ConsoleMessage =
  msg_type :: string
  msg_level :: string
  msg_text :: string
  msg_parameters :: "RemoteObject list option"
  msg_url :: string
  msg_line :: int
  msg_column :: int

text \<open>\<open>JSON.parse\<close> belongs to the language, not to the program, and is an argument of the
  handler: it throws or gives the parsed object id, of which the handler reads the
  property \<open>injectedScriptId\<close>, absent or a number.\<close>

record ParsedObjectId =
  injectedScriptId :: "nat option"

text \<open>\<open>parameters[i]\<close>: \<open>undefined\<close> beyond the end of the array.\<close>

fun element :: "'a list \<Rightarrow> nat \<Rightarrow> 'a option" where
  "element [] i = None"
| "element (x # xs) 0 = Some x"
| "element (x # xs) (Suc i) = element xs i"

text \<open>The \<open>map\<close> over the parameters of a console message: a parameter with a truthy object id
  is given the context registered under the parsed \<open>injectedScriptId\<close>, any other the main
  frame's context; \<open>_createHandle\<close> on a context that is \<open>undefined\<close> throws.\<close>

fun createHandles ::
  "(string \<Rightarrow> Error + ParsedObjectId) \<Rightarrow> FrameManager \<Rightarrow> nat \<Rightarrow> RemoteObject list \<Rightarrow> Error + JSHandle list" where
  "createHandles parse s mainFrameContext [] = Inr []"
| "createHandles parse s mainFrameContext (p # ps) =
     (case (if truthy (ro_objectId p)
            then (case parse (the (ro_objectId p)) of
                    Inl e \<Rightarrow> Inl e
                  | Inr objectId \<Rightarrow>
                      Inr (case injectedScriptId objectId of
                             None \<Rightarrow> None
                           | Some i \<Rightarrow> map_option contextId (map_of (contextIdToContext s) i)))
            else Inr (Some mainFrameContext)) of
        Inl e \<Rightarrow> Inl e
      | Inr None \<Rightarrow> Inl TypeError
      | Inr (Some context) \<Rightarrow>
          (case createHandles parse s mainFrameContext ps of
             Inl e \<Rightarrow> Inl e
           | Inr handles \<Rightarrow> Inr (\<lparr>handle_context = context, handle_remoteObject = p\<rparr> # handles)))"

text \<open>The condition of the first \<open>if\<close> of \<open>_onConsoleMessage\<close>; \<open>parameters[0].value\<close> throws on
  an empty array.\<close>

definition isBindingCall :: "ConsoleMessage \<Rightarrow> Error + bool" where
  "isBindingCall m =
     (if msg_level m = ''debug''
      then (case msg_parameters m of
              None \<Rightarrow> Inr False
            | Some [] \<Rightarrow> Inl TypeError
            | Some (p # ps) \<Rightarrow> Inr (ro_value p = JSString BINDING_CALL_MESSAGE))
      else Inr False)"

text \<open>The type that \<open>_onConsoleMessage\<close> reports to the page.\<close>

definition derivedType :: "ConsoleMessage \<Rightarrow> string" where
  "derivedType m = (if msg_type m = ''log'' then msg_level m
                    else if msg_type m = ''timing'' then ''timeEnd''
                    else msg_type m)"

text \<open>\<open>_onConsoleMessage\<close> is an async method with one \<open>await\<close>. A call runs synchronously
  until it has returned or thrown, or until it reaches
  \<open>await this.mainFrame().executionContext()\<close>; there it is suspended on the promise of the
  frame that is the main frame at that moment, and other handlers of the manager run before
  it goes on.\<close>

datatype ConsoleStep = Returned "Error + FrameManager" | AwaitingExecutionContext handle

text \<open>The synchronous part. Calls of the page's \<open>_onBindingCalled\<close> and \<open>_addConsoleMessage\<close>
  are logged like emitted events.\<close>

definition onConsoleMessage ::
  "(string \<Rightarrow> Error + ParsedObjectId) \<Rightarrow> ConsoleMessage \<Rightarrow> FrameManager \<Rightarrow> ConsoleStep" where
  "onConsoleMessage parse m s =
     (case isBindingCall m of
        Inl e \<Rightarrow> Returned (Inl e)
      | Inr True \<Rightarrow>
          (let parameters = the (msg_parameters m) in
           case element parameters 1 of
             None \<Rightarrow> Returned (Inl TypeError)
           | Some p1 \<Rightarrow>
              (case (case ro_objectId p1 of None \<Rightarrow> Inl SyntaxError | Some oid \<Rightarrow> parse oid) of
                 Inl e \<Rightarrow> Returned (Inl e)
               | Inr parsedObjectId \<Rightarrow>
                   (let context = (case injectedScriptId parsedObjectId of
                                     None \<Rightarrow> None
                                   | Some i \<Rightarrow> map_of (contextIdToContext s) i)
                    in case element parameters 2 of
                         None \<Rightarrow> Returned (Inl TypeError)
                       | Some p2 \<Rightarrow> Returned (Inr (emit (Page_BindingCalled (ro_value p2) context) s)))))
      | Inr False \<Rightarrow>
          (case mainFrame s of
             None \<Rightarrow> Returned (Inl TypeError)
           | Some f \<Rightarrow> AwaitingExecutionContext f))"

text \<open>The part after the \<open>await\<close>. It runs when the awaited promise has resolved, with the
  context the promise resolved with, on the manager as it is by then: the registry it looks
  the object ids up in is the registry at that time, not the one the message arrived in.
  When the promise stays pending, this part never runs.\<close>

definition onConsoleMessage_resumed ::
  "(string \<Rightarrow> Error + ParsedObjectId) \<Rightarrow> ConsoleMessage \<Rightarrow> nat \<Rightarrow> FrameManager \<Rightarrow> Error + FrameManager" where
  "onConsoleMessage_resumed parse m mainFrameContext s =
     (case createHandles parse s mainFrameContext
             (case msg_parameters m of None \<Rightarrow> [] | Some ps \<Rightarrow> ps) of
        Inl e \<Rightarrow> Inl e
      | Inr handles \<Rightarrow>
          Inr (emit (Page_ConsoleMessage (derivedType m) handles
               \<lparr>loc_url = msg_url m, loc_lineNumber = msg_line m - 1,
                 loc_columnNumber = msg_column m - 1\<rparr>
               (if handles \<noteq> [] then None else Some (msg_text m))) s))"

text \<open>A binding call as \<open>exposeBinding\<close>'s script makes it, \<open>console.debug(sentinel, {}, 42)\<close>,
  and the same arguments logged at another level; \<open>example_parse\<close> is \<open>JSON.parse\<close> on the
  one object id that occurs.\<close>

definition example_objectId :: string where
  "example_objectId = ''{'' @ [CHR 0x22] @ ''injectedScriptId'' @ [CHR 0x22] @ '':7,'' @
      [CHR 0x22] @ ''id'' @ [CHR 0x22] @ '':1}''"

definition example_parse :: "string \<Rightarrow> Error + ParsedObjectId" where
  "example_parse x = (if x = example_objectId then Inr \<lparr>injectedScriptId = Some 7\<rparr> else Inl SyntaxError)"

definition example_parameters :: "RemoteObject list" where
  "example_parameters =
     [\<lparr>ro_value = JSString BINDING_CALL_MESSAGE, ro_objectId = None\<rparr>,
      \<lparr>ro_value = JSUndefined, ro_objectId = Some example_objectId\<rparr>,
      \<lparr>ro_value = JSNumber 42, ro_objectId = None\<rparr>]"

definition example_message :: "string \<Rightarrow> ConsoleMessage" where
  "example_message level =
     \<lparr>msg_type = ''log'', msg_level = level, msg_text = ''__playwright_binding_call__ [object Object] 42'',
      msg_parameters = Some example_parameters, msg_url = ''https://a.example/'',
      msg_line = 3, msg_column = 9\<rparr>"

text \<open>The subtree of a frame, read off the \<open>childFrames\<close> of the frame objects: a node is a
  frame with the subtrees of its children, in the order of \<open>childFrames()\<close>.\<close>

datatype FrameTree = FrameTree handle "FrameTree list"

fun root :: "FrameTree \<Rightarrow> handle" where
  "root (FrameTree h ts) = h"

fun postorder :: "FrameTree \<Rightarrow> handle list" where
  "postorder (FrameTree h ts) = concat (map postorder ts) @ [h]"

fun descendants :: "FrameTree \<Rightarrow> handle list" where
  "descendants (FrameTree h ts) = concat (map postorder ts)"

text \<open>\<open>subtreeOf hp t\<close>: the tree \<open>t\<close> is what the frame objects of the heap \<open>hp\<close> say, every node
  with exactly its \<open>childFrames\<close> as children.\<close>

fun subtreeOf :: "Frame list \<Rightarrow> FrameTree \<Rightarrow> bool" where
  "subtreeOf hp (FrameTree h ts) =
     (h < length hp \<and> map root ts = childFrames (hp ! h) \<and> (\<forall>t \<in> set ts. subtreeOf hp t))"

text \<open>The subtree of a frame computed from the heap, to a depth that the number of frame objects
  bounds.\<close>

fun treeFrom :: "nat \<Rightarrow> Frame list \<Rightarrow> handle \<Rightarrow> FrameTree" where
  "treeFrom 0 hp h = FrameTree h []"
| "treeFrom (Suc n) hp h = FrameTree h (map (treeFrom n hp) (childFrames (hp ! h)))"

definition frameTree :: "FrameManager \<Rightarrow> handle \<Rightarrow> FrameTree" where
  "frameTree s f = treeFrom (length (heap s)) (heap s) f"

text \<open>What \<open>_removeFramesRecursively\<close> emits for one frame after the other: \<open>FrameDetached\<close> on the
  manager, then on the page.\<close>

definition detachEvents :: "handle list \<Rightarrow> Event list" where
  "detachEvents hs = concat (map (\<lambda>h. [FM_FrameDetached h, Page_FrameDetached h]) hs)"

text \<open>\<open>precedes a b xs\<close>: an occurrence of \<open>a\<close> in \<open>xs\<close> comes before an occurrence of \<open>b\<close>.\<close>

definition precedes :: "'a \<Rightarrow> 'a \<Rightarrow> 'a list \<Rightarrow> bool" where
  "precedes a b xs \<longleftrightarrow> (\<exists>us vs ws. xs = us @ a # vs @ b # ws)"

section \<open>Properties\<close>

subsection \<open>Frames keep their links and ids\<close>

lemma shape_length: "shape hp' = shape hp \<Longrightarrow> length hp' = length hp"
  unfolding shape_def by (drule arg_cong[where f = length]) simp

lemma shape_nth:
  assumes "shape hp' = shape hp" "h < length hp"
  shows "parentFrame (hp' ! h) = parentFrame (hp ! h)"
    and "childFrames (hp' ! h) = childFrames (hp ! h)"
    and "data_id (hp' ! h) = data_id (hp ! h)"
proof -
  have l: "h < length hp'" using assms(2) shape_length[OF assms(1)] by simp
  have "shape hp' ! h = shape hp ! h" using assms by simp
  then have "(parentFrame (hp' ! h), childFrames (hp' ! h), data_id (hp' ! h))
           = (parentFrame (hp ! h), childFrames (hp ! h), data_id (hp ! h))"
    using l assms(2) unfolding shape_def by simp
  then show "parentFrame (hp' ! h) = parentFrame (hp ! h)"
    and "childFrames (hp' ! h) = childFrames (hp ! h)"
    and "data_id (hp' ! h) = data_id (hp ! h)"
    by simp_all
qed

lemma heap_ok_shape:
  assumes "shape hp' = shape hp" "heap_ok hp"
  shows "heap_ok hp'"
  unfolding heap_ok_def
proof (intro allI impI)
  fix h assume "h < length hp'"
  then have h: "h < length hp" using shape_length[OF assms(1)] by simp
  have len: "length hp' = length hp" using shape_length[OF assms(1)] by simp
  from assms(2) h have ok:
     "distinct (childFrames (hp ! h))"
     "\<forall>c \<in> set (childFrames (hp ! h)). h < c \<and> c < length hp \<and> parentFrame (hp ! c) = Some h"
     "\<forall>p. parentFrame (hp ! h) = Some p \<longrightarrow> p < h \<and> h \<in> set (childFrames (hp ! p))"
    unfolding heap_ok_def by blast+
  show "distinct (childFrames (hp' ! h)) \<and>
        (\<forall>c \<in> set (childFrames (hp' ! h)). h < c \<and> c < length hp' \<and> parentFrame (hp' ! c) = Some h) \<and>
        (\<forall>p. parentFrame (hp' ! h) = Some p \<longrightarrow> p < h \<and> h \<in> set (childFrames (hp' ! p)))"
    using ok h len shape_nth[OF assms(1)] by auto
qed

lemma shape_update:
  assumes "parentFrame g = parentFrame (hp ! f)" "childFrames g = childFrames (hp ! f)"
     "data_id g = data_id (hp ! f)"
  shows "shape (hp[f := g]) = shape hp"
proof (cases "f < length hp")
  case True
  have "shape (hp[f := g]) = (shape hp)[f := (parentFrame g, childFrames g, data_id g)]"
    unfolding shape_def by (simp add: map_update)
  also have "(parentFrame g, childFrames g, data_id g) = shape hp ! f"
    using True assms unfolding shape_def by simp
  finally show ?thesis by simp
next
  case False then show ?thesis by (simp add: list_update_beyond)
qed

lemma invariant_shape:
  assumes "shape (heap s') = shape (heap s)" "frames_map s' = frames_map s"
    "mainFrame s' = mainFrame s" "invariant s"
  shows "invariant s'"
proof -
  have len: "length (heap s') = length (heap s)" using assms(1) shape_length by blast
  have "heap_ok (heap s')" using assms heap_ok_shape unfolding invariant_def by blast
  moreover have "registry_ok s'"
    using assms(2,4) len shape_nth(3)[OF assms(1)] unfolding invariant_def registry_ok_def by auto
  moreover have "main_ok s'"
    using assms(3,4) len shape_nth(1)[OF assms(1)] unfolding invariant_def main_ok_def by auto
  ultimately show ?thesis unfolding invariant_def by simp
qed

lemma nth_upd: "xs[i := x] ! h = (if i = h \<and> h < length xs then x else xs ! h)"
  by (cases "i = h") (simp_all add: list_update_beyond)

lemma Frame_onDetached_length [simp]: "length (Frame_onDetached f hp) = length hp"
  unfolding Frame_onDetached_def by (cases "parentFrame (hp ! f)") (simp_all add: Let_def)

lemma Frame_onDetached_data_id [simp]: "data_id (Frame_onDetached f hp ! h) = data_id (hp ! h)"
proof (cases "parentFrame (hp ! f)")
  case None
  then show ?thesis unfolding Frame_onDetached_def by (simp add: nth_upd)
next
  case (Some p)
  then show ?thesis unfolding Frame_onDetached_def by (simp add: Let_def nth_upd)
qed

lemma Frame_onDetached_heap_ok:
  assumes ok: "heap_ok hp" and f: "f < length hp"
  shows "heap_ok (Frame_onDetached f hp)"
proof (cases "parentFrame (hp ! f)")
  case None
  then have eq: "Frame_onDetached f hp = hp[f := (hp ! f)\<lparr>detached := True, parentFrame := None\<rparr>]"
    unfolding Frame_onDetached_def by simp
  have "shape (hp[f := (hp ! f)\<lparr>detached := True, parentFrame := None\<rparr>]) = shape hp"
    using None by (intro shape_update) simp_all
  then show ?thesis using heap_ok_shape[OF _ ok] eq by simp
next
  case (Some p)
  have pf: "p < f" "f \<in> set (childFrames (hp ! p))"
    using ok f Some unfolding heap_ok_def by blast+
  then have p: "p < length hp" using f by simp
  let ?hp1 = "hp[p := (hp ! p)\<lparr>childFrames := removeAll f (childFrames (hp ! p))\<rparr>]"
  let ?hp2 = "?hp1[f := (?hp1 ! f)\<lparr>detached := True, parentFrame := None\<rparr>]"
  have eq: "Frame_onDetached f hp = ?hp2"
    unfolding Frame_onDetached_def using Some by (simp add: Let_def)
  have pnf: "p \<noteq> f" using pf by simp
  have ch: "childFrames (?hp2 ! h) =
      (if h = p then removeAll f (childFrames (hp ! p)) else childFrames (hp ! h))"
    if "h < length hp" for h
    using that pnf by (simp add: nth_upd)
  have pa: "parentFrame (?hp2 ! h) = (if h = f then None else parentFrame (hp ! h))"
    if "h < length hp" for h
    using that pnf by (simp add: nth_upd)
  have only: "h = p" if "h < length hp" "f \<in> set (childFrames (hp ! h))" for h
  proof -
    have "parentFrame (hp ! f) = Some h" using ok that unfolding heap_ok_def by blast
    then show ?thesis using Some by simp
  qed
  show ?thesis unfolding eq heap_ok_def
  proof (intro allI impI)
    fix h assume "h < length ?hp2"
    then have h: "h < length hp" by simp
    from ok h have okh:
     "distinct (childFrames (hp ! h))"
     "\<forall>c \<in> set (childFrames (hp ! h)). h < c \<and> c < length hp \<and> parentFrame (hp ! c) = Some h"
     "\<forall>q. parentFrame (hp ! h) = Some q \<longrightarrow> q < h \<and> h \<in> set (childFrames (hp ! q))"
      unfolding heap_ok_def by blast+
    have 1: "distinct (childFrames (?hp2 ! h))"
      using okh(1) unfolding ch[OF h] by (cases "h = p") (simp_all add: distinct_removeAll)
    have 2: "\<forall>c \<in> set (childFrames (?hp2 ! h)). h < c \<and> c < length ?hp2 \<and> parentFrame (?hp2 ! c) = Some h"
    proof
      fix c assume c: "c \<in> set (childFrames (?hp2 ! h))"
      then have c0: "c \<in> set (childFrames (hp ! h))" using ch[OF h] by (auto split: if_splits)
      then have c1: "h < c" "c < length hp" "parentFrame (hp ! c) = Some h" using okh(2) by blast+
      have "c \<noteq> f"
      proof
        assume "c = f"
        then have "h = p" using only[OF h] c0 by simp
        then show False using c ch[OF h] \<open>c = f\<close> by simp
      qed
      then show "h < c \<and> c < length ?hp2 \<and> parentFrame (?hp2 ! c) = Some h"
        using c1 pa[OF c1(2)] by simp
    qed
    have 3: "\<forall>q. parentFrame (?hp2 ! h) = Some q \<longrightarrow> q < h \<and> h \<in> set (childFrames (?hp2 ! q))"
    proof (intro allI impI)
      fix q assume q: "parentFrame (?hp2 ! h) = Some q"
      then have hf: "h \<noteq> f" using pa[OF h] by auto
      then have "parentFrame (hp ! h) = Some q" using q pa[OF h] by simp
      then have q1: "q < h" "h \<in> set (childFrames (hp ! q))" using okh(3) by blast+
      then have "q < length hp" using h by simp
      then show "q < h \<and> h \<in> set (childFrames (?hp2 ! q))"
        using q1 hf ch[of q] by auto
    qed
    show "distinct (childFrames (?hp2 ! h)) \<and>
        (\<forall>c \<in> set (childFrames (?hp2 ! h)). h < c \<and> c < length ?hp2 \<and> parentFrame (?hp2 ! c) = Some h) \<and>
        (\<forall>q. parentFrame (?hp2 ! h) = Some q \<longrightarrow> q < h \<and> h \<in> set (childFrames (?hp2 ! q)))"
      using 1 2 3 by blast
  qed
qed

lemma Frame_onDetached_parent:
  "h < length hp \<Longrightarrow> parentFrame (hp ! h) = None \<Longrightarrow> parentFrame (Frame_onDetached f hp ! h) = None"
  unfolding Frame_onDetached_def
  by (auto simp: Let_def nth_upd split: option.splits)

lemma removeFrame_simps [simp]:
  "heap (removeFrame f s) = Frame_onDetached f (heap s)"
  "frames_map (removeFrame f s) = (frames_map s)(data_id (heap s ! f) := None)"
  "mainFrame (removeFrame f s) = mainFrame s"
  "contextIdToContext (removeFrame f s) = contextIdToContext s"
  "disposedContexts (removeFrame f s) = disposedContexts s"
  "emitted (removeFrame f s) = emitted s @ [FM_FrameDetached f, Page_FrameDetached f]"
  unfolding removeFrame_def emit_def by (simp_all add: Let_def)

lemma removeFrame_invariant:
  assumes "invariant s" "f < length (heap s)"
  shows "invariant (removeFrame f s)"
proof -
  have "heap_ok (heap (removeFrame f s))"
    using assms Frame_onDetached_heap_ok unfolding invariant_def by simp
  moreover have "registry_ok (removeFrame f s)"
    using assms unfolding invariant_def registry_ok_def by (auto split: if_splits)
  moreover have "main_ok (removeFrame f s)"
    using assms Frame_onDetached_parent unfolding invariant_def main_ok_def by auto
  ultimately show ?thesis unfolding invariant_def by simp
qed

lemma removal_invariant:
  "removeFramesRecursively n f s = Some s' \<longrightarrow> invariant s \<longrightarrow> f < length (heap s)
     \<longrightarrow> invariant s' \<and> length (heap s') = length (heap s)"
  "removeFrames n cs s = Some s' \<longrightarrow> invariant s \<longrightarrow> (\<forall>c \<in> set cs. c < length (heap s))
     \<longrightarrow> invariant s' \<and> length (heap s') = length (heap s)"
proof (induction n f s and n cs s arbitrary: s' and s' rule: removeFramesRecursively_removeFrames.induct)
  case (1 f s)
  then show ?case by simp
next
  case (2 n f s)
  show ?case
  proof (intro impI)
    assume run: "removeFramesRecursively (Suc n) f s = Some s'" and inv: "invariant s"
      and f: "f < length (heap s)"
    from run obtain s1 where s1: "removeFrames n (childFrames (heap s ! f)) s = Some s1"
      and s': "s' = removeFrame f s1" by (auto split: option.splits)
    have "\<forall>c \<in> set (childFrames (heap s ! f)). c < length (heap s)"
      using inv f unfolding invariant_def heap_ok_def by blast
    then have "invariant s1 \<and> length (heap s1) = length (heap s)"
      using "2.IH" s1 inv by blast
    then show "invariant s' \<and> length (heap s') = length (heap s)"
      using s' f removeFrame_invariant by simp
  qed
next
  case (3 n s)
  then show ?case by simp
next
  case (4 n c cs s)
  show ?case
  proof (intro impI)
    assume run: "removeFrames n (c # cs) s = Some s'" and inv: "invariant s"
      and cs: "\<forall>x \<in> set (c # cs). x < length (heap s)"
    from run obtain s1 where s1: "removeFramesRecursively n c s = Some s1"
      and s': "removeFrames n cs s1 = Some s'" by (auto split: option.splits)
    have a: "invariant s1 \<and> length (heap s1) = length (heap s)"
      using "4.IH"(1) s1 inv cs by simp
    then show "invariant s' \<and> length (heap s') = length (heap s)"
      using "4.IH"(2)[OF s1] s' cs by simp
  qed
qed

lemma removal_returns:
  "invariant s \<longrightarrow> f < length (heap s) \<longrightarrow> length (heap s) - f \<le> n
     \<longrightarrow> (\<exists>s'. removeFramesRecursively n f s = Some s')"
  "invariant s \<longrightarrow> (\<forall>c \<in> set cs. c < length (heap s) \<and> length (heap s) - c \<le> n)
     \<longrightarrow> (\<exists>s'. removeFrames n cs s = Some s')"
proof (induction n f s and n cs s rule: removeFramesRecursively_removeFrames.induct)
  case (1 f s)
  then show ?case by simp
next
  case (2 n f s)
  show ?case
  proof (intro impI)
    assume inv: "invariant s" and f: "f < length (heap s)" and n: "length (heap s) - f \<le> Suc n"
    have "\<forall>c \<in> set (childFrames (heap s ! f)). c < length (heap s) \<and> f < c"
      using inv f unfolding invariant_def heap_ok_def by blast
    then have "\<forall>c \<in> set (childFrames (heap s ! f)). c < length (heap s) \<and> length (heap s) - c \<le> n"
      using n by auto
    then obtain s1 where "removeFrames n (childFrames (heap s ! f)) s = Some s1"
      using "2.IH" inv by blast
    then show "\<exists>s'. removeFramesRecursively (Suc n) f s = Some s'" by simp
  qed
next
  case (3 n s)
  then show ?case by simp
next
  case (4 n c cs s)
  show ?case
  proof (intro impI)
    assume inv: "invariant s"
      and cs: "\<forall>x \<in> set (c # cs). x < length (heap s) \<and> length (heap s) - x \<le> n"
    then obtain s1 where s1: "removeFramesRecursively n c s = Some s1"
      using "4.IH"(1) by auto
    then have a: "invariant s1 \<and> length (heap s1) = length (heap s)"
      using removal_invariant(1) inv cs by simp
    then obtain s' where "removeFrames n cs s1 = Some s'"
      using "4.IH"(2)[OF s1] cs by auto
    then show "\<exists>s'. removeFrames n (c # cs) s = Some s'" using s1 by simp
  qed
qed

lemma heap_ok_update:
  assumes "parentFrame g = parentFrame (hp ! f)" "childFrames g = childFrames (hp ! f)"
  shows "heap_ok (hp[f := g]) = heap_ok hp"
proof -
  have c: "\<And>h. childFrames (hp[f := g] ! h) = childFrames (hp ! h)"
    using assms by (simp add: nth_upd)
  have p: "\<And>h. parentFrame (hp[f := g] ! h) = parentFrame (hp ! h)"
    using assms by (simp add: nth_upd)
  show ?thesis unfolding heap_ok_def c p by simp
qed

lemma Frame_new_fst [simp]: "fst (Frame_new parent hp) = length hp"
  unfolding Frame_new_def by (simp add: Let_def)

lemma Frame_new_length [simp]: "length (snd (Frame_new parent hp)) = Suc (length hp)"
  unfolding Frame_new_def by (cases parent) (simp_all add: Let_def)

lemma Frame_new_childFrames:
  assumes "h \<le> length hp" "\<forall>p. parent = Some p \<longrightarrow> p < length hp"
  shows "childFrames (snd (Frame_new parent hp) ! h) =
      (if h = length hp then [] else if parent = Some h then childFrames (hp ! h) @ [length hp]
       else childFrames (hp ! h))"
proof (cases parent)
  case None
  then show ?thesis using assms unfolding Frame_new_def
    by (simp add: Let_def nth_append newFrame_def)
next
  case (Some p)
  then have "p < length hp" using assms by simp
  then show ?thesis using assms Some unfolding Frame_new_def
    by (simp add: Let_def nth_append newFrame_def nth_upd)
qed

lemma Frame_new_parentFrame:
  assumes "h \<le> length hp" "\<forall>p. parent = Some p \<longrightarrow> p < length hp"
  shows "parentFrame (snd (Frame_new parent hp) ! h) =
      (if h = length hp then parent else parentFrame (hp ! h))"
proof (cases parent)
  case None
  then show ?thesis using assms unfolding Frame_new_def
    by (simp add: Let_def nth_append newFrame_def)
next
  case (Some p)
  then have "p < length hp" using assms by simp
  then show ?thesis using assms Some unfolding Frame_new_def
    by (simp add: Let_def nth_append newFrame_def nth_upd)
qed

lemma Frame_new_data_id:
  assumes "h < length hp"
  shows "data_id (snd (Frame_new parent hp) ! h) = data_id (hp ! h)"
proof (cases parent)
  case None
  then show ?thesis using assms unfolding Frame_new_def
    by (simp add: Let_def nth_append)
next
  case (Some p)
  then show ?thesis using assms Some unfolding Frame_new_def
    by (simp add: Let_def nth_append nth_upd)
qed

lemma Frame_new_heap_ok:
  assumes ok: "heap_ok hp" and par: "\<forall>p. parent = Some p \<longrightarrow> p < length hp"
  shows "heap_ok (snd (Frame_new parent hp))"
  unfolding heap_ok_def
proof (intro allI impI)
  let ?hp = "snd (Frame_new parent hp)"
  let ?n = "length hp"
  fix h assume "h < length ?hp"
  then have h: "h \<le> ?n" by simp
  note ch = Frame_new_childFrames[OF _ par]
  note pa = Frame_new_parentFrame[OF _ par]
  show "distinct (childFrames (?hp ! h)) \<and>
        (\<forall>c \<in> set (childFrames (?hp ! h)). h < c \<and> c < length ?hp \<and> parentFrame (?hp ! c) = Some h) \<and>
        (\<forall>p. parentFrame (?hp ! h) = Some p \<longrightarrow> p < h \<and> h \<in> set (childFrames (?hp ! p)))"
  proof (cases "h = ?n")
    case True
    have "\<forall>p. parent = Some p \<longrightarrow> p < ?n \<and> ?n \<in> set (childFrames (?hp ! p))"
      using par ch by auto
    then show ?thesis using True ch[OF h] pa[OF h] by simp
  next
    case False
    then have hl: "h < ?n" using h by simp
    from ok hl have okh:
     "distinct (childFrames (hp ! h))"
     "\<forall>c \<in> set (childFrames (hp ! h)). h < c \<and> c < length hp \<and> parentFrame (hp ! c) = Some h"
     "\<forall>q. parentFrame (hp ! h) = Some q \<longrightarrow> q < h \<and> h \<in> set (childFrames (hp ! q))"
      unfolding heap_ok_def by blast+
    have 1: "distinct (childFrames (?hp ! h))"
      using okh(1,2) ch[OF h] False by auto
    have 2: "h < c \<and> c < length ?hp \<and> parentFrame (?hp ! c) = Some h"
      if c: "c \<in> set (childFrames (?hp ! h))" for c
    proof (cases "c = ?n")
      case True
      then have "parent = Some h" using c ch[OF h] False okh(2) by (auto split: if_splits)
      then show ?thesis using True hl pa[of ?n] by simp
    next
      case cn: False
      then have "c \<in> set (childFrames (hp ! h))" using c ch[OF h] False by (auto split: if_splits)
      then have "h < c" "c < ?n" "parentFrame (hp ! c) = Some h" using okh(2) by blast+
      then show ?thesis using pa[of c] by simp
    qed
    have 3: "q < h \<and> h \<in> set (childFrames (?hp ! q))" if q: "parentFrame (?hp ! h) = Some q" for q
    proof -
      have "parentFrame (hp ! h) = Some q" using q pa[OF h] False by simp
      then have q1: "q < h" "h \<in> set (childFrames (hp ! q))" using okh(3) by blast+
      then have "q < ?n" using hl by simp
      then show ?thesis using q1 ch[of q] by simp
    qed
    show ?thesis using 1 2 3 by blast
  qed
qed

subsection \<open>The example page\<close>

lemma keeping_simps [simp]:
  "keeping n (Inr s) = Inr (n, s)"
  "keeping n (Inl e) = Inl e"
  unfolding keeping_def by simp_all

lemma keeping_Inr [simp]: "keeping n r = Inr (n', s') \<longleftrightarrow> n' = n \<and> r = Inr s'"
  unfolding keeping_def by (cases r) auto

lemma keeping_Inl [simp]: "keeping n r = Inl e \<longleftrightarrow> r = Inl e"
  unfolding keeping_def by (cases r) auto

lemma example_page_simps:
  "frames_map example_page = [''main'' \<mapsto> 0, ''child'' \<mapsto> 1]"
  "mainFrame example_page = Some 0"
  "length (heap example_page) = 2"
  "contextIdToContext example_page = [(7, \<lparr>contextId = 7, context_frame = 0\<rparr>)]"
  "firedLifecycleEvents (heap example_page ! 0) = {DOMContentLoaded}"
  "emitted example_page = [FM_FrameAttached 0, Page_FrameAttached 0, FM_FrameAttached 1, Page_FrameAttached 1,
      FM_LifecycleEvent 0, Page_DOMContentLoaded]"
  unfolding example_page_def
  by (simp_all add: initial_def onFrameAttached_def onExecutionContextCreated_def onLifecycleEvent_def
      truthy_def Frame_new_def newFrame_def emit_def Frame_contextCreated_def Frame_lifecycleEvent_def Let_def)

subsection \<open>Every handler keeps the state well-formed\<close>

lemma removal_keeps:
  "removeFramesRecursively n f s = Some s' \<longrightarrow>
     mainFrame s' = mainFrame s \<and>
     contextIdToContext s' = contextIdToContext s \<and> disposedContexts s' = disposedContexts s \<and>
     (\<forall>h. data_id (heap s' ! h) = data_id (heap s ! h)) \<and>
     (\<forall>k h. frames_map s' k = Some h \<longrightarrow> frames_map s k = Some h)"
  "removeFrames n cs s = Some s' \<longrightarrow>
     mainFrame s' = mainFrame s \<and>
     contextIdToContext s' = contextIdToContext s \<and> disposedContexts s' = disposedContexts s \<and>
     (\<forall>h. data_id (heap s' ! h) = data_id (heap s ! h)) \<and>
     (\<forall>k h. frames_map s' k = Some h \<longrightarrow> frames_map s k = Some h)"
proof (induction n f s and n cs s arbitrary: s' and s' rule: removeFramesRecursively_removeFrames.induct)
  case (1 f s)
  then show ?case by simp
next
  case (2 n f s)
  show ?case
  proof (intro impI)
    assume run: "removeFramesRecursively (Suc n) f s = Some s'"
    then obtain s1 where s1: "removeFrames n (childFrames (heap s ! f)) s = Some s1"
      and s': "s' = removeFrame f s1" by (auto split: option.splits)
    note ih = "2.IH"[of s1, rule_format, OF s1]
    show "mainFrame s' = mainFrame s \<and>
     contextIdToContext s' = contextIdToContext s \<and> disposedContexts s' = disposedContexts s \<and>
     (\<forall>h. data_id (heap s' ! h) = data_id (heap s ! h)) \<and>
     (\<forall>k h. frames_map s' k = Some h \<longrightarrow> frames_map s k = Some h)"
      unfolding s' using ih by (simp split: if_splits)
  qed
next
  case (3 n s)
  then show ?case by simp
next
  case (4 n c cs s)
  show ?case
  proof (intro impI)
    assume run: "removeFrames n (c # cs) s = Some s'"
    then obtain s1 where s1: "removeFramesRecursively n c s = Some s1"
      and s': "removeFrames n cs s1 = Some s'" by (auto split: option.splits)
    note a = "4.IH"(1)[of s1, rule_format, OF s1]
    note b = "4.IH"(2)[OF s1, of s', rule_format, OF s']
    show "mainFrame s' = mainFrame s \<and>
     contextIdToContext s' = contextIdToContext s \<and> disposedContexts s' = disposedContexts s \<and>
     (\<forall>h. data_id (heap s' ! h) = data_id (heap s ! h)) \<and>
     (\<forall>k h. frames_map s' k = Some h \<longrightarrow> frames_map s k = Some h)"
      using a b by simp
  qed
qed

lemma Frame_contextDestroyed_shape [simp]:
  "shape (Frame_contextDestroyed f c hp) = shape hp"
  unfolding Frame_contextDestroyed_def Let_def by (rule shape_update) simp_all

lemma destroyContext_keeps [simp]:
  "shape (heap (destroyContext f kc s)) = shape (heap s)"
  "frames_map (destroyContext f kc s) = frames_map s"
  "mainFrame (destroyContext f kc s) = mainFrame s"
  "emitted (destroyContext f kc s) = emitted s"
  unfolding destroyContext_def by simp_all

lemma fold_destroyContext_keeps:
  "shape (heap (fold (destroyContext f) xs s)) = shape (heap s) \<and>
   frames_map (fold (destroyContext f) xs s) = frames_map s \<and>
   mainFrame (fold (destroyContext f) xs s) = mainFrame s \<and>
   emitted (fold (destroyContext f) xs s) = emitted s"
  by (induction xs arbitrary: s) simp_all

lemma destroyContexts_keeps [simp]:
  "shape (heap (destroyContexts f s)) = shape (heap s)"
  "frames_map (destroyContexts f s) = frames_map s"
  "mainFrame (destroyContexts f s) = mainFrame s"
  "emitted (destroyContexts f s) = emitted s"
  unfolding destroyContexts_def using fold_destroyContext_keeps by simp_all

lemma shape_Frame_methods [simp]:
  "shape (Frame_lifecycleEvent f e hp) = shape hp"
  "shape (Frame_onExpectedNewDocumentNavigation f d hp) = shape hp"
  "shape (Frame_onCommittedNewDocumentNavigation f u n d hp) = shape hp"
  "shape (Frame_onCommittedSameDocumentNavigation f u hp) = shape hp"
  "shape (Frame_contextCreated f w c hp) = shape hp"
  unfolding Frame_lifecycleEvent_def Frame_onExpectedNewDocumentNavigation_def
    Frame_onCommittedNewDocumentNavigation_def Frame_onCommittedSameDocumentNavigation_def
    Frame_contextCreated_def
  by (simp_all add: shape_update split: ContextType.splits)

lemma emit_simps [simp]:
  "heap (emit e s) = heap s" "frames_map (emit e s) = frames_map s"
  "mainFrame (emit e s) = mainFrame s"
  "contextIdToContext (emit e s) = contextIdToContext s"
  "emitted (emit e s) = emitted s @ [e]"
  unfolding emit_def by simp_all

lemma onFrameNavigatedWithinDocument_invariant:
  assumes "invariant s" "onFrameNavigatedWithinDocument frameId u s = Inr s'"
  shows "invariant s'"
proof (cases "frames_map s frameId")
  case None
  then show ?thesis using assms unfolding onFrameNavigatedWithinDocument_def by simp
next
  case (Some f)
  then have s': "s' = emit (Page_FrameNavigated f) (emit (FM_FrameNavigated f)
                (emit (FM_FrameNavigatedWithinDocument f)
                   (s\<lparr>heap := Frame_onCommittedSameDocumentNavigation f u (heap s)\<rparr>)))"
    using assms(2) unfolding onFrameNavigatedWithinDocument_def by simp
  show ?thesis by (rule invariant_shape[OF _ _ _ assms(1)]) (simp_all add: s')
qed

lemma onFrameStoppedLoading_invariant:
  assumes "invariant s" "onFrameStoppedLoading frameId s = Inr s'"
  shows "invariant s'"
proof (cases "frames_map s frameId")
  case None
  then show ?thesis using assms unfolding onFrameStoppedLoading_def by simp
next
  case (Some f)
  show ?thesis
    by (rule invariant_shape[OF _ _ _ assms(1)])
       (use assms(2) Some in \<open>auto simp: onFrameStoppedLoading_def Let_def\<close>)
qed

lemma onLifecycleEvent_invariant:
  assumes "invariant s" "onLifecycleEvent frameId e s = Inr s'"
  shows "invariant s'"
proof (cases "frames_map s frameId")
  case None
  then show ?thesis using assms unfolding onLifecycleEvent_def by simp
next
  case (Some f)
  show ?thesis
    by (rule invariant_shape[OF _ _ _ assms(1)])
       (use assms(2) Some in \<open>auto simp: onLifecycleEvent_def Let_def\<close>)
qed

lemma onExecutionContextCreated_invariant:
  assumes "invariant s"
  shows "invariant (onExecutionContextCreated p s)"
  by (rule invariant_shape[OF _ _ _ assms])
     (auto simp: onExecutionContextCreated_def Let_def split: option.splits)

lemma onFrameDetached_invariant:
  assumes "invariant s" "onFrameDetached frameId s = Inr s'"
  shows "invariant s'"
proof (cases "frames_map s frameId")
  case None
  then show ?thesis using assms unfolding onFrameDetached_def by simp
next
  case (Some f)
  then have f: "f < length (heap s)" using assms(1) unfolding invariant_def registry_ok_def by blast
  have "removeFramesRecursively (length (heap s)) f s = Some s'"
    using assms(2) Some unfolding onFrameDetached_def by (simp split: option.splits)
  then show ?thesis using removal_invariant(1) assms(1) f by blast
qed

lemma onFrameAttached_Inr:
  assumes "onFrameAttached frameId parentFrameId s = Inr s'"
  defines "parent \<equiv> (if truthy parentFrameId then frames_map s (the parentFrameId) else None)"
  shows "frames_map s frameId = None"
    and "heap s' = (snd (Frame_new parent (heap s)))
            [length (heap s) := (snd (Frame_new parent (heap s)) ! length (heap s))\<lparr>data_id := frameId\<rparr>]"
    and "frames_map s' = (frames_map s)(frameId \<mapsto> length (heap s))"
    and "mainFrame s' = (if parent = None then Some (length (heap s)) else mainFrame s)"
    and "contextIdToContext s' = contextIdToContext s"
    and "emitted s' = emitted s @ [FM_FrameAttached (length (heap s)), Page_FrameAttached (length (heap s))]"
proof -
  show n: "frames_map s frameId = None"
    using assms(1) unfolding onFrameAttached_def by (simp split: if_splits)
  obtain f hp where fh: "Frame_new parent (heap s) = (f, hp)" by (cases "Frame_new parent (heap s)")
  then have f: "f = length (heap s)" using Frame_new_fst[of parent "heap s"] by simp
  have s': "s' = emit (Page_FrameAttached f) (emit (FM_FrameAttached f)
         (if parent = None
          then (s\<lparr>heap := hp[f := (hp ! f)\<lparr>data_id := frameId\<rparr>], frames_map := (frames_map s)(frameId \<mapsto> f)\<rparr>)\<lparr>mainFrame := Some f\<rparr>
          else s\<lparr>heap := hp[f := (hp ! f)\<lparr>data_id := frameId\<rparr>], frames_map := (frames_map s)(frameId \<mapsto> f)\<rparr>))"
    using assms(1) n fh unfolding onFrameAttached_def parent_def by (simp add: Let_def)
  show "heap s' = (snd (Frame_new parent (heap s)))
            [length (heap s) := (snd (Frame_new parent (heap s)) ! length (heap s))\<lparr>data_id := frameId\<rparr>]"
    unfolding s' using fh f by simp
  show "frames_map s' = (frames_map s)(frameId \<mapsto> length (heap s))"
    unfolding s' using f by simp
  show "mainFrame s' = (if parent = None then Some (length (heap s)) else mainFrame s)"
    unfolding s' using f by simp
  show "contextIdToContext s' = contextIdToContext s" unfolding s' by simp
  show "emitted s' = emitted s @ [FM_FrameAttached (length (heap s)), Page_FrameAttached (length (heap s))]"
    unfolding s' using f by simp
qed

lemma onFrameAttached_invariant:
  assumes inv: "invariant s" and run: "onFrameAttached frameId parentFrameId s = Inr s'"
  shows "invariant s'"
proof -
  define parent where "parent = (if truthy parentFrameId then frames_map s (the parentFrameId) else None)"
  note r = onFrameAttached_Inr[OF run, folded parent_def]
  let ?n = "length (heap s)"
  let ?hp = "snd (Frame_new parent (heap s))"
  have par: "\<forall>p. parent = Some p \<longrightarrow> p < ?n"
    using inv unfolding parent_def invariant_def registry_ok_def by (auto split: if_splits)
  have hok: "heap_ok (heap s')"
    unfolding r(2) using Frame_new_heap_ok[OF _ par] inv
    by (simp add: heap_ok_update invariant_def)
  have len: "length (heap s') = Suc ?n" unfolding r(2) by simp
  have did: "data_id (heap s' ! h) = (if h = ?n then frameId else data_id (heap s ! h))" if "h \<le> ?n" for h
    unfolding r(2) using that by (simp add: nth_upd Frame_new_data_id)
  have pf: "parentFrame (heap s' ! h) = (if h = ?n then parent else parentFrame (heap s ! h))" if "h \<le> ?n" for h
    unfolding r(2) using that Frame_new_parentFrame[OF that par] Frame_new_parentFrame[OF order_refl par]
    by (cases "h = ?n") (simp_all add: nth_upd)
  have rok: "registry_ok s'"
    unfolding registry_ok_def
  proof (intro allI impI)
    fix k h assume kh: "frames_map s' k = Some h"
    show "h < length (heap s') \<and> data_id (heap s' ! h) = k"
    proof (cases "k = frameId")
      case True
      then show ?thesis using kh r(3) len did[of ?n] by simp
    next
      case False
      then have "frames_map s k = Some h" using kh r(3) by simp
      then have "h < ?n" "data_id (heap s ! h) = k"
        using inv unfolding invariant_def registry_ok_def by blast+
      then show ?thesis using len did[of h] by simp
    qed
  qed
  have mok: "main_ok s'"
    unfolding main_ok_def
  proof (intro allI impI)
    fix m assume m: "mainFrame s' = Some m"
    show "m < length (heap s') \<and> parentFrame (heap s' ! m) = None"
    proof (cases "parent = None")
      case True
      then show ?thesis using m r(4) len pf[of ?n] by simp
    next
      case False
      then have "mainFrame s = Some m" using m r(4) by (simp split: if_splits)
      then have "m < ?n" "parentFrame (heap s ! m) = None"
        using inv unfolding invariant_def main_ok_def by blast+
      then show ?thesis using len pf[of m] by simp
    qed
  qed
  show ?thesis unfolding invariant_def using hok rok mok by simp
qed

lemma onFrameNavigated_Inr:
  assumes run: "onFrameNavigated p init n s = Inr (n', s')"
  obtains f s1 where
    "(if \<not> truthy (payload_parentId p) then mainFrame s else frames_map s (payload_id p)) = Some f"
    "removeFrames (length (heap s)) (childFrames (heap s ! f)) s = Some s1"
    "mainFrame s' = mainFrame s1"
    "frames_map s' = (if \<not> truthy (payload_parentId p)
        then ((frames_map s1)(data_id (heap s1 ! f) := None))(payload_id p \<mapsto> f) else frames_map s1)"
    "shape (heap s') = shape (if \<not> truthy (payload_parentId p)
        then (heap s1)[f := (heap s1 ! f)\<lparr>data_id := payload_id p\<rparr>] else heap s1)"
    "n' = increment n"
    "emitted s' = emitted s1 @ [FM_FrameNavigated f, Page_FrameNavigated f]"
proof -
  let ?t = "(if \<not> truthy (payload_parentId p) then mainFrame s else frames_map s (payload_id p))"
  from run obtain f where f: "?t = Some f"
    unfolding onFrameNavigated_def by (auto simp: Let_def split: option.splits)
  from run f obtain s1 where s1: "removeFrames (length (heap s)) (childFrames (heap s ! f)) s = Some s1"
    unfolding onFrameNavigated_def by (auto simp: Let_def split: option.splits)
  have "onFrameNavigated p init n s = Inr (increment n,
     (let s2 = (if \<not> truthy (payload_parentId p)
                       then s1\<lparr>heap := (heap s1)[f := (heap s1 ! f)\<lparr>data_id := payload_id p\<rparr>],
                               frames_map := ((frames_map s1)(data_id (heap s1 ! f) := None))
                                               (payload_id p \<mapsto> f)\<rparr>
                       else s1);
                 s3 = destroyContexts f s2;
                 documentId = newDocumentId (payload_loaderId p) (increment n);
                 s5 = (if \<not> init
                       then s3\<lparr>heap := Frame_onExpectedNewDocumentNavigation f documentId (heap s3)\<rparr>
                       else s3);
                 s6 = s5\<lparr>heap := Frame_onCommittedNewDocumentNavigation f
                         (payload_url p) (payload_name p) documentId (heap s5)\<rparr>
             in emit (Page_FrameNavigated f) (emit (FM_FrameNavigated f) s6)))"
    using f s1 unfolding onFrameNavigated_def by (simp add: Let_def)
  with run have n': "n' = increment n" and s'': "s' =
     (let s2 = (if \<not> truthy (payload_parentId p)
                       then s1\<lparr>heap := (heap s1)[f := (heap s1 ! f)\<lparr>data_id := payload_id p\<rparr>],
                               frames_map := ((frames_map s1)(data_id (heap s1 ! f) := None))
                                               (payload_id p \<mapsto> f)\<rparr>
                       else s1);
                 s3 = destroyContexts f s2;
                 documentId = newDocumentId (payload_loaderId p) (increment n);
                 s5 = (if \<not> init
                       then s3\<lparr>heap := Frame_onExpectedNewDocumentNavigation f documentId (heap s3)\<rparr>
                       else s3);
                 s6 = s5\<lparr>heap := Frame_onCommittedNewDocumentNavigation f
                         (payload_url p) (payload_name p) documentId (heap s5)\<rparr>
             in emit (Page_FrameNavigated f) (emit (FM_FrameNavigated f) s6))"
    by (auto simp: Let_def)
  show thesis
  proof (rule that[OF f s1])
    show "mainFrame s' = mainFrame s1" unfolding s'' by (simp add: Let_def)
    show "frames_map s' = (if \<not> truthy (payload_parentId p)
        then ((frames_map s1)(data_id (heap s1 ! f) := None))(payload_id p \<mapsto> f) else frames_map s1)"
      unfolding s'' by (simp add: Let_def)
    show "shape (heap s') = shape (if \<not> truthy (payload_parentId p)
        then (heap s1)[f := (heap s1 ! f)\<lparr>data_id := payload_id p\<rparr>] else heap s1)"
      unfolding s'' by (simp add: Let_def)
    show "n' = increment n" using n' .
    show "emitted s' = emitted s1 @ [FM_FrameNavigated f, Page_FrameNavigated f]"
      unfolding s'' by (simp add: Let_def)
  qed
qed

lemma target_valid:
  assumes "invariant s"
    "(if \<not> truthy (payload_parentId p) then mainFrame s else frames_map s (payload_id p)) = Some f"
  shows "f < length (heap s)"
  using assms unfolding invariant_def registry_ok_def main_ok_def by (auto split: if_splits)

lemma children_valid:
  assumes "invariant s" "f < length (heap s)"
  shows "\<forall>c \<in> set (childFrames (heap s ! f)). c < length (heap s)"
  using assms unfolding invariant_def heap_ok_def by blast

lemma rewrite_id_invariant:
  assumes inv: "invariant s1" and f: "f < length (heap s1)"
  shows "invariant (s1\<lparr>heap := (heap s1)[f := (heap s1 ! f)\<lparr>data_id := k\<rparr>],
                        frames_map := ((frames_map s1)(data_id (heap s1 ! f) := None))(k \<mapsto> f)\<rparr>)"
    (is "invariant ?s2")
proof -
  have hok: "heap_ok (heap ?s2)" using inv by (simp add: heap_ok_update invariant_def)
  have rok: "registry_ok ?s2"
    unfolding registry_ok_def
  proof (intro allI impI)
    fix j h assume jh: "frames_map ?s2 j = Some h"
    show "h < length (heap ?s2) \<and> data_id (heap ?s2 ! h) = j"
    proof (cases "j = k")
      case True
      then show ?thesis using jh f by simp
    next
      case False
      then have old: "frames_map s1 j = Some h" "j \<noteq> data_id (heap s1 ! f)"
        using jh by (auto split: if_splits)
      then have h: "h < length (heap s1)" "data_id (heap s1 ! h) = j"
        using inv unfolding invariant_def registry_ok_def by blast+
      then have "h \<noteq> f" using old(2) by auto
      then show ?thesis using h by simp
    qed
  qed
  have mok: "main_ok ?s2"
    using inv unfolding invariant_def main_ok_def by (simp add: nth_upd)
  show ?thesis unfolding invariant_def using hok rok mok by simp
qed

lemma onFrameNavigated_invariant:
  assumes inv: "invariant s" and run: "onFrameNavigated p init n s = Inr (n', s')"
  shows "invariant s'"
proof -
  from run obtain f s1 where
    t: "(if \<not> truthy (payload_parentId p) then mainFrame s else frames_map s (payload_id p)) = Some f"
    and s1: "removeFrames (length (heap s)) (childFrames (heap s ! f)) s = Some s1"
    and m: "mainFrame s' = mainFrame s1"
    and fm: "frames_map s' = (if \<not> truthy (payload_parentId p)
        then ((frames_map s1)(data_id (heap s1 ! f) := None))(payload_id p \<mapsto> f) else frames_map s1)"
    and sh: "shape (heap s') = shape (if \<not> truthy (payload_parentId p)
        then (heap s1)[f := (heap s1 ! f)\<lparr>data_id := payload_id p\<rparr>] else heap s1)"
    by (rule onFrameNavigated_Inr)
  have f: "f < length (heap s)" using target_valid[OF inv t] .
  have i1: "invariant s1 \<and> length (heap s1) = length (heap s)"
    using removal_invariant(2) s1 inv children_valid[OF inv f] by blast
  show ?thesis
  proof (cases "truthy (payload_parentId p)")
    case True
    show ?thesis by (rule invariant_shape[of s' s1]) (use True m fm sh i1 in simp_all)
  next
    case False
    let ?s2 = "s1\<lparr>heap := (heap s1)[f := (heap s1 ! f)\<lparr>data_id := payload_id p\<rparr>],
                 frames_map := ((frames_map s1)(data_id (heap s1 ! f) := None))(payload_id p \<mapsto> f)\<rparr>"
    have "invariant ?s2" using rewrite_id_invariant i1 f by simp
    then show ?thesis by (rule invariant_shape[of s' ?s2, rotated 3]) (use False m fm sh in simp_all)
  qed
qed

lemma onFrameNavigated_returns:
  assumes inv: "invariant s"
    and t: "(if \<not> truthy (payload_parentId p) then mainFrame s else frames_map s (payload_id p)) = Some f"
  shows "\<exists>n' s'. onFrameNavigated p init n s = Inr (n', s')"
proof -
  have f: "f < length (heap s)" using target_valid[OF inv t] .
  have "\<forall>c \<in> set (childFrames (heap s ! f)). c < length (heap s) \<and> length (heap s) - c \<le> length (heap s)"
    using children_valid[OF inv f] by simp
  then obtain s1 where "removeFrames (length (heap s)) (childFrames (heap s ! f)) s = Some s1"
    using removal_returns(2) inv by blast
  then show ?thesis using t unfolding onFrameNavigated_def by (simp add: Let_def)
qed

lemma onFrameDetached_returns:
  assumes inv: "invariant s"
  shows "\<exists>s'. onFrameDetached frameId s = Inr s'"
proof (cases "frames_map s frameId")
  case None
  then show ?thesis unfolding onFrameDetached_def by simp
next
  case (Some f)
  then have f: "f < length (heap s)" using inv unfolding invariant_def registry_ok_def by blast
  then obtain s' where "removeFramesRecursively (length (heap s)) f s = Some s'"
    using removal_returns(1) inv by (meson diff_le_self)
  then show ?thesis using Some unfolding onFrameDetached_def by simp
qed

lemma call_invariant:
  assumes "invariant s" "call c n s = Inr (n', s')"
  shows "invariant s'"
proof (cases c)
  case (Attach x y) then show ?thesis using assms onFrameAttached_invariant by auto
next
  case (Navigate x y) then show ?thesis using assms onFrameNavigated_invariant by auto
next
  case (NavigateWithinDocument x y)
  then show ?thesis using assms onFrameNavigatedWithinDocument_invariant by auto
next
  case (Detach x) then show ?thesis using assms onFrameDetached_invariant by auto
next
  case (StoppedLoading x) then show ?thesis using assms onFrameStoppedLoading_invariant by auto
next
  case (Lifecycle x y) then show ?thesis using assms onLifecycleEvent_invariant by auto
next
  case (ContextCreated x)
  then show ?thesis using assms onExecutionContextCreated_invariant by auto
qed

lemma calls_invariant: "invariant s \<Longrightarrow> invariant (calls cs s)"
proof (induction cs arbitrary: s)
  case Nil
  then show ?case by simp
next
  case (Cons nc cs)
  show ?case
  proof (cases "call (snd nc) (fst nc) s")
    case (Inl e)
    then show ?thesis using Cons by simp
  next
    case (Inr r)
    then have "call (snd nc) (fst nc) s = Inr (fst r, snd r)" by simp
    then have "invariant (snd r)" using call_invariant Cons.prems by blast
    then show ?thesis using Cons.IH Inr by simp
  qed
qed

lemma initial_invariant: "invariant initial"
  unfolding invariant_def heap_ok_def registry_ok_def main_ok_def initial_def by simp

lemma reachable_invariant: "reachable s \<Longrightarrow> invariant s"
  unfolding reachable_def using calls_invariant[OF initial_invariant] by auto

lemma calls_append: "calls (cs @ ds) s = calls ds (calls cs s)"
  by (induction cs arbitrary: s) (simp_all split: sum.splits)

lemma reachable_call:
  assumes "reachable s" "call c n s = Inr (n', s')"
  shows "reachable s'"
proof -
  from assms(1) obtain cs where "calls cs initial = s" unfolding reachable_def by blast
  then have "calls (cs @ [(n, c)]) initial = s'" using assms(2) by (simp add: calls_append)
  then show ?thesis unfolding reachable_def by blast
qed

lemma reachable_example_page: "reachable example_page"
  unfolding reachable_def example_page_def by blast

lemma handlers_unknown_frame:
  assumes "frames_map s frameId = None"
  shows "onFrameNavigatedWithinDocument frameId u s = Inr s"
    and "onFrameDetached frameId s = Inr s"
    and "onFrameStoppedLoading frameId s = Inr s"
    and "onLifecycleEvent frameId e s = Inr s"
  using assms
  unfolding onFrameNavigatedWithinDocument_def onFrameDetached_def onFrameStoppedLoading_def
    onLifecycleEvent_def
  by simp_all

lemma onFrameNavigated_unknown_frame:
  assumes "frames_map s (payload_id p) = None" "truthy (payload_parentId p)"
  shows "onFrameNavigated p init n s = Inl TypeError"
  using assms unfolding onFrameNavigated_def by (simp add: Let_def)

lemma example_two_roots_simps:
  "frames_map example_two_roots = [''A'' \<mapsto> 0, ''B'' \<mapsto> 1]"
  "mainFrame example_two_roots = Some 1"
  "length (heap example_two_roots) = 2"
  "parentFrame (heap example_two_roots ! 0) = None"
  "parentFrame (heap example_two_roots ! Suc 0) = None"
  "data_id (heap example_two_roots ! 0) = ''A''"
  "data_id (heap example_two_roots ! Suc 0) = ''B''"
  unfolding example_two_roots_def
  by (simp_all add: initial_def onFrameAttached_def truthy_def Frame_new_def newFrame_def emit_def Let_def
        nth_append)

subsection \<open>Document ids\<close>

lemma digit_char_inj:
  assumes "a < 10" "b < 10" "char_of (48 + a) = (char_of (48 + b) :: char)"
  shows "a = (b::nat)"
proof -
  have "of_char (char_of (48 + a) :: char) = (of_char (char_of (48 + b) :: char) :: nat)"
    using assms(3) by simp
  then have "(48 + a) mod 256 = (48 + b) mod 256" by (simp only: of_char_of)
  then show ?thesis using assms(1,2) by simp
qed

lemma digit_char_not_colon:
  assumes "a < (10::nat)"
  shows "(char_of (48 + a) :: char) \<noteq> CHR '':''"
proof
  assume "(char_of (48 + a) :: char) = CHR '':''"
  then have "of_char (char_of (48 + a) :: char) = (of_char (CHR '':'') :: nat)" by simp
  then have "(48 + a) mod 256 = 58" by (simp only: of_char_of) simp
  then show False using assms by simp
qed

lemma string_of_nat_not_Nil: "string_of_nat n \<noteq> []"
  by (subst string_of_nat.simps) simp

lemma string_of_nat_no_colon: "CHR '':'' \<notin> set (string_of_nat n)"
proof (induction n rule: string_of_nat.induct)
  case (1 n)
  show ?case
  proof (cases "n < 10")
    case True
    then show ?thesis using digit_char_not_colon[of n]
      by (subst string_of_nat.simps) auto
  next
    case False
    then show ?thesis using "1.IH" digit_char_not_colon[of "n mod 10"]
      by (subst string_of_nat.simps) auto
  qed
qed

lemma string_of_nat_inj: "string_of_nat n = string_of_nat m \<Longrightarrow> n = m"
proof (induction n arbitrary: m rule: string_of_nat.induct)
  case (1 n)
  show ?case
  proof (cases "n < 10")
    case True
    then have n: "string_of_nat n = [char_of (48 + n)]" by (subst string_of_nat.simps) simp
    show ?thesis
    proof (cases "m < 10")
      case mt: True
      then have "string_of_nat m = [char_of (48 + m)]" by (subst string_of_nat.simps) simp
      then show ?thesis using n "1.prems" digit_char_inj[OF True mt] by simp
    next
      case False
      then have "string_of_nat m = string_of_nat (m div 10) @ [char_of (48 + m mod 10)]"
        by (subst string_of_nat.simps) simp
      then have "length (string_of_nat m) \<ge> 2"
        using string_of_nat_not_Nil[of "m div 10"] by (cases "string_of_nat (m div 10)") simp_all
      then show ?thesis using n "1.prems" by simp
    qed
  next
    case False
    then have n: "string_of_nat n = string_of_nat (n div 10) @ [char_of (48 + n mod 10)]"
      by (subst string_of_nat.simps) simp
    show ?thesis
    proof (cases "m < 10")
      case True
      then have "string_of_nat m = [char_of (48 + m)]" by (subst string_of_nat.simps) simp
      moreover have "length (string_of_nat n) \<ge> 2"
        using n string_of_nat_not_Nil[of "n div 10"] by (cases "string_of_nat (n div 10)") simp_all
      ultimately show ?thesis using "1.prems" by simp
    next
      case mf: False
      then have "string_of_nat m = string_of_nat (m div 10) @ [char_of (48 + m mod 10)]"
        by (subst string_of_nat.simps) simp
      then have e: "string_of_nat (n div 10) = string_of_nat (m div 10)"
        "(char_of (48 + n mod 10) :: char) = char_of (48 + m mod 10)"
        using n "1.prems" by simp_all
      have "n div 10 = m div 10" using "1.IH"[OF False e(1)] .
      moreover have "n mod 10 = m mod 10" using digit_char_inj[OF _ _ e(2)] by simp
      ultimately show ?thesis by (metis div_mult_mod_eq)
    qed
  qed
qed

lemma takeWhile_before:
  assumes "\<forall>x \<in> set xs. P x" "\<not> P y"
  shows "takeWhile P (xs @ y # ys) = xs"
  using assms by (induction xs) simp_all

lemma newDocumentId_inj:
  assumes "newDocumentId l1 n1 = newDocumentId l2 n2"
  shows "n1 = n2"
proof -
  have "rev (newDocumentId l1 n1) = rev (newDocumentId l2 n2)" using assms by simp
  then have e: "rev (string_of_nat n1) @ CHR '':'' # (CHR '':'' # rev l1)
              = rev (string_of_nat n2) @ CHR '':'' # (CHR '':'' # rev l2)"
    unfolding newDocumentId_def by simp
  have "takeWhile (\<lambda>c. c \<noteq> CHR '':'') (rev (string_of_nat n1) @ CHR '':'' # (CHR '':'' # rev l1))
        = rev (string_of_nat n1)"
    by (rule takeWhile_before) (use string_of_nat_no_colon[of n1] in auto)
  moreover have "takeWhile (\<lambda>c. c \<noteq> CHR '':'') (rev (string_of_nat n2) @ CHR '':'' # (CHR '':'' # rev l2))
        = rev (string_of_nat n2)"
    by (rule takeWhile_before) (use string_of_nat_no_colon[of n2] in auto)
  ultimately have "rev (string_of_nat n1) = rev (string_of_nat n2)" using e by simp
  then show ?thesis using string_of_nat_inj by simp
qed

lemma onFrameNavigated_documentId:
  assumes inv: "invariant s" and run: "onFrameNavigated p init n s = Inr (n', s')"
    and t: "navigationTarget p s = Some f"
  shows "n' = increment n"
    and "frame_lastDocumentId (heap s' ! f) = newDocumentId (payload_loaderId p) n'"
proof -
  let ?t = "(if \<not> truthy (payload_parentId p) then mainFrame s else frames_map s (payload_id p))"
  have t': "?t = Some f" using t unfolding navigationTarget_def .
  have f: "f < length (heap s)" using target_valid[OF inv t'] .
  obtain s1 where s1: "removeFrames (length (heap s)) (childFrames (heap s ! f)) s = Some s1"
    using run t' unfolding onFrameNavigated_def by (auto simp: Let_def split: option.splits)
  have len: "length (heap s1) = length (heap s)"
    using removal_invariant(2) s1 inv children_valid[OF inv f] by blast
  have dl: "length (heap (destroyContexts f x)) = length (heap x)" for x
    using shape_length[of "heap (destroyContexts f x)" "heap x"] by simp
  show n': "n' = increment n"
    using run t' s1 unfolding onFrameNavigated_def
    by (auto simp: Let_def split: if_splits)
  show "frame_lastDocumentId (heap s' ! f) = newDocumentId (payload_loaderId p) n'"
    unfolding n' using run t' s1 f len dl unfolding onFrameNavigated_def
    by (auto simp: Let_def Frame_onCommittedNewDocumentNavigation_def
          Frame_onExpectedNewDocumentNavigation_def split: if_splits)
qed

lemma increment_ge: "n \<le> increment n"
  unfolding increment_def by simp

lemma increment_gt: "n < 9007199254740992 \<Longrightarrow> n < increment n"
  unfolding increment_def by simp

lemma call_counter:
  assumes "call c n s = Inr (n', s')"
  shows "n \<le> n'"
proof (cases c)
  case (Navigate p i)
  then have "onFrameNavigated p i n s = Inr (n', s')" using assms by simp
  then have "n' = increment n" by (rule onFrameNavigated_Inr)
  then show ?thesis using increment_ge by simp
qed (use assms in auto)

lemma processEvent_invariant:
  assumes "\<forall>m \<in> set (frameManagers P). invariant m"
  shows "\<forall>m \<in> set (frameManagers (processEvent e P)). invariant m"
proof (cases e)
  case NewFrameManager
  then show ?thesis using assms initial_invariant by auto
next
  case (Handle i c)
  show ?thesis
  proof (cases "i < length (frameManagers P)")
    case False
    then show ?thesis using assms Handle by simp
  next
    case True
    show ?thesis
    proof (cases "call c (lastDocumentId P) (frameManagers P ! i)")
      case (Inl x)
      then show ?thesis using assms Handle True by simp
    next
      case (Inr r)
      then have "call c (lastDocumentId P) (frameManagers P ! i) = Inr (fst r, snd r)" by simp
      moreover have "invariant (frameManagers P ! i)" using assms True by simp
      ultimately have "invariant (snd r)" using call_invariant by blast
      moreover have "set ((frameManagers P)[i := snd r]) \<subseteq> insert (snd r) (set (frameManagers P))"
        by (rule set_update_subset_insert)
      ultimately show ?thesis using assms Handle True Inr by auto
    qed
  qed
qed

lemma processEvent_counter: "lastDocumentId P \<le> lastDocumentId (processEvent e P)"
proof (cases e)
  case NewFrameManager
  then show ?thesis by simp
next
  case (Handle i c)
  show ?thesis
  proof (cases "call c (lastDocumentId P) (frameManagers P ! i)")
    case (Inl x)
    then show ?thesis using Handle by simp
  next
    case (Inr r)
    then have "call c (lastDocumentId P) (frameManagers P ! i) = Inr (fst r, snd r)" by simp
    then have "lastDocumentId P \<le> fst r" by (rule call_counter)
    then show ?thesis using Handle Inr by simp
  qed
qed

lemma processEvents_invariant:
  "\<forall>m \<in> set (frameManagers P). invariant m
     \<Longrightarrow> \<forall>m \<in> set (frameManagers (processEvents es P)). invariant m"
proof (induction es arbitrary: P)
  case Nil
  then show ?case by simp
next
  case (Cons e es)
  have "\<forall>m \<in> set (frameManagers (processEvent e P)). invariant m"
    using processEvent_invariant[OF Cons.prems] .
  then show ?case using Cons.IH by simp
qed

lemma processEvents_counter: "lastDocumentId P \<le> lastDocumentId (processEvents es P)"
proof (induction es arbitrary: P)
  case Nil
  then show ?case by simp
next
  case (Cons e es)
  have "lastDocumentId P \<le> lastDocumentId (processEvent e P)" by (rule processEvent_counter)
  also have "\<dots> \<le> lastDocumentId (processEvents es (processEvent e P))" by (rule Cons.IH)
  finally show ?case by simp
qed

lemma processEvents_append: "processEvents (es @ fs) P = processEvents fs (processEvents es P)"
  by (induction es arbitrary: P) simp_all

lemma reachableProcess_invariant:
  assumes "reachableProcess P" "i < length (frameManagers P)"
  shows "invariant (frameManagers P ! i)"
proof -
  from assms(1) obtain es where es: "processEvents es processStart = P"
    unfolding reachableProcess_def by blast
  have "\<forall>m \<in> set (frameManagers processStart). invariant m" unfolding processStart_def by simp
  then have "\<forall>m \<in> set (frameManagers P). invariant m"
    using processEvents_invariant es by blast
  then show ?thesis using assms(2) by simp
qed

lemma onFrameNavigated_mainFrame:
  assumes "onFrameNavigated p init n s = Inr (n', s')"
  shows "mainFrame s' = mainFrame s"
proof -
  from assms obtain f s1 where
    "removeFrames (length (heap s)) (childFrames (heap s ! f)) s = Some s1"
    "mainFrame s' = mainFrame s1"
    by (rule onFrameNavigated_Inr)
  then show ?thesis using removal_keeps(2) by metis
qed

lemma string_of_nat_1: "string_of_nat (Suc 0) = ''1''"
  by code_simp

lemma example_main_simps:
  "mainFrame example_main = Some 0" "length (heap example_main) = 1"
  "childFrames (heap example_main ! 0) = []"
  unfolding example_main_def
  by (simp_all add: initial_def onFrameAttached_def truthy_def Frame_new_def newFrame_def emit_def Let_def)

lemma example_navigated_run:
  "onFrameNavigated example_payload False 0 example_main = Inr (Suc 0, example_navigated)"
proof -
  have inv: "invariant example_main"
    unfolding example_main_def using calls_invariant[OF initial_invariant] .
  have "(if \<not> truthy (payload_parentId example_payload) then mainFrame example_main
         else frames_map example_main (payload_id example_payload)) = Some 0"
    unfolding example_payload_def by (simp add: truthy_def example_main_simps)
  from onFrameNavigated_returns[OF inv this, of False 0]
  obtain n' s' where r: "onFrameNavigated example_payload False 0 example_main = Inr (n', s')" by blast
  then have "n' = increment 0" by (rule onFrameNavigated_Inr)
  then have "n' = Suc 0" unfolding increment_def by simp
  moreover have "example_navigated = s'" unfolding example_navigated_def using r by simp
  ultimately show ?thesis using r by simp
qed

lemma example_navigated_simps:
  "mainFrame example_navigated = Some 0"
  "frame_lastDocumentId (heap example_navigated ! 0) = ''L1::1''"
proof -
  have inv: "invariant example_main"
    unfolding example_main_def using calls_invariant[OF initial_invariant] .
  have t: "navigationTarget example_payload example_main = Some 0"
    unfolding navigationTarget_def example_payload_def by (simp add: truthy_def example_main_simps)
  note d = onFrameNavigated_documentId[OF inv example_navigated_run t]
  show "frame_lastDocumentId (heap example_navigated ! 0) = ''L1::1''"
    using d(2) string_of_nat_1
    by (simp add: example_payload_def newDocumentId_def)
  show "mainFrame example_navigated = Some 0"
    using onFrameNavigated_mainFrame[OF example_navigated_run] by (simp add: example_main_simps)
qed

lemma example_process_simps:
  "frameManagers example_process = [example_main, example_main]"
  "lastDocumentId example_process = 0"
proof -
  have a: "onFrameAttached ''main'' None initial = Inr example_main"
    unfolding example_main_def
    by (simp add: onFrameAttached_def initial_def Frame_new_def newFrame_def emit_def truthy_def Let_def)
  show "frameManagers example_process = [example_main, example_main]"
    unfolding example_process_def by (simp add: processStart_def a)
  show "lastDocumentId example_process = 0"
    unfolding example_process_def by (simp add: processStart_def a)
qed

lemma disposed_after_race:
  "disposed (snd (navigateFrame nt f u opts (Resolved ()) (Resolved error) response))"
  "disposed (snd (waitForFrameNavigation nt f opts (Resolved error) response))"
  "disposed (snd (setFrameContent nt f html opts (Resolved ()) (Resolved error)))"
  unfolding navigateFrame_def waitForFrameNavigation_def setFrameContent_def dispose_def
  by (simp_all add: Let_def split: option.splits)

subsection \<open>Console messages\<close>

lemma createHandles_hydrates:
  assumes "\<forall>p \<in> set ps. truthy (ro_objectId p) \<longrightarrow>
        (\<exists>parsed i c. parse (the (ro_objectId p)) = Inr parsed \<and> injectedScriptId parsed = Some i \<and>
            map_of (contextIdToContext s) i = Some c)"
  shows "\<exists>handles. createHandles parse s mc ps = Inr handles \<and> length handles = length ps \<and>
           (\<forall>i < length ps. handle_remoteObject (handles ! i) = ps ! i \<and>
              (truthy (ro_objectId (ps ! i)) \<longrightarrow>
                 (\<exists>parsed j c. parse (the (ro_objectId (ps ! i))) = Inr parsed \<and>
                    injectedScriptId parsed = Some j \<and> map_of (contextIdToContext s) j = Some c \<and>
                    handle_context (handles ! i) = contextId c)) \<and>
              (\<not> truthy (ro_objectId (ps ! i)) \<longrightarrow> handle_context (handles ! i) = mc))"
  using assms
proof (induction ps)
  case Nil
  then show ?case by simp
next
  case (Cons p ps)
  then obtain handles where h: "createHandles parse s mc ps = Inr handles" "length handles = length ps"
     and hi: "\<forall>i < length ps. handle_remoteObject (handles ! i) = ps ! i \<and>
              (truthy (ro_objectId (ps ! i)) \<longrightarrow>
                 (\<exists>parsed j c. parse (the (ro_objectId (ps ! i))) = Inr parsed \<and>
                    injectedScriptId parsed = Some j \<and> map_of (contextIdToContext s) j = Some c \<and>
                    handle_context (handles ! i) = contextId c)) \<and>
              (\<not> truthy (ro_objectId (ps ! i)) \<longrightarrow> handle_context (handles ! i) = mc)"
    by auto
  show ?case
  proof (cases "truthy (ro_objectId p)")
    case True
    then obtain parsed j c where r: "parse (the (ro_objectId p)) = Inr parsed"
       "injectedScriptId parsed = Some j" "map_of (contextIdToContext s) j = Some c"
      using Cons.prems by auto
    let ?hs = "\<lparr>handle_context = contextId c, handle_remoteObject = p\<rparr> # handles"
    have 1: "createHandles parse s mc (p # ps) = Inr ?hs" using True r h by simp
    have 2: "handle_remoteObject (?hs ! i) = (p # ps) ! i \<and>
              (truthy (ro_objectId ((p # ps) ! i)) \<longrightarrow>
                 (\<exists>parsed j c. parse (the (ro_objectId ((p # ps) ! i))) = Inr parsed \<and>
                    injectedScriptId parsed = Some j \<and> map_of (contextIdToContext s) j = Some c \<and>
                    handle_context (?hs ! i) = contextId c)) \<and>
              (\<not> truthy (ro_objectId ((p # ps) ! i)) \<longrightarrow> handle_context (?hs ! i) = mc)"
      if "i < length (p # ps)" for i
    proof (cases i)
      case 0
      then show ?thesis using True r by auto
    next
      case (Suc k)
      then show ?thesis using hi that by simp
    qed
    show ?thesis using 1 2 h(2) by (intro exI[of _ ?hs]) simp
  next
    case False
    let ?hs = "\<lparr>handle_context = mc, handle_remoteObject = p\<rparr> # handles"
    have 1: "createHandles parse s mc (p # ps) = Inr ?hs" using False h by simp
    have 2: "handle_remoteObject (?hs ! i) = (p # ps) ! i \<and>
              (truthy (ro_objectId ((p # ps) ! i)) \<longrightarrow>
                 (\<exists>parsed j c. parse (the (ro_objectId ((p # ps) ! i))) = Inr parsed \<and>
                    injectedScriptId parsed = Some j \<and> map_of (contextIdToContext s) j = Some c \<and>
                    handle_context (?hs ! i) = contextId c)) \<and>
              (\<not> truthy (ro_objectId ((p # ps) ! i)) \<longrightarrow> handle_context (?hs ! i) = mc)"
      if "i < length (p # ps)" for i
    proof (cases i)
      case 0
      then show ?thesis using False by auto
    next
      case (Suc k)
      then show ?thesis using hi that by simp
    qed
    show ?thesis using 1 2 h(2) by (intro exI[of _ ?hs]) simp
  qed
qed

lemma example_objectId_truthy: "truthy (Some example_objectId)"
  unfolding truthy_def example_objectId_def by simp

lemma createHandles_throws:
  assumes "p \<in> set ps" and "truthy (ro_objectId p)"
    and "\<not> (\<exists>parsed i c. parse (the (ro_objectId p)) = Inr parsed \<and> injectedScriptId parsed = Some i \<and>
            map_of (contextIdToContext s) i = Some c)"
  shows "\<exists>e. createHandles parse s mc ps = Inl e"
  using assms(1)
proof (induction ps)
  case Nil
  then show ?case by simp
next
  case (Cons q qs)
  show ?case
  proof (cases "q = p")
    case True
    show ?thesis
    proof (cases "parse (the (ro_objectId p))")
      case (Inl e)
      then show ?thesis using True assms(2) by simp
    next
      case (Inr parsed)
      show ?thesis
      proof (cases "injectedScriptId parsed")
        case None
        then show ?thesis using True assms(2) Inr by simp
      next
        case (Some i)
        then have "map_of (contextIdToContext s) i = None" using assms(3) Inr by (cases "map_of (contextIdToContext s) i") auto
        then show ?thesis using True assms(2) Inr Some by simp
      qed
    qed
  next
    case False
    then have "p \<in> set qs" using Cons.prems by simp
    then obtain e where "createHandles parse s mc qs = Inl e" using Cons.IH by blast
    then show ?thesis by (simp split: sum.splits option.splits)
  qed
qed

lemma example_context_replaced:
  "contextIdToContext (onExecutionContextCreated
      \<lparr>cp_id = 9, cp_frameId = ''main'', cp_isPageContext = True, cp_name = []\<rparr> example_main) =
     [(9, \<lparr>contextId = 9, context_frame = 0\<rparr>)]"
  unfolding example_main_def
  by (simp add: initial_def onFrameAttached_def onExecutionContextCreated_def
      truthy_def Frame_new_def newFrame_def emit_def Frame_contextCreated_def Let_def)

subsection \<open>Removing a subtree\<close>

lemma root_in_postorder: "root t \<in> set (postorder t)"
  by (cases t) simp

lemma postorder_descendants: "postorder t = descendants t @ [root t]"
  by (cases t) simp

lemma root_treeFrom [simp]: "root (treeFrom n hp h) = h"
  by (cases n) simp_all

lemma treeFrom_subtreeOf:
  assumes "heap_ok hp"
  shows "h < length hp \<Longrightarrow> length hp - h \<le> n \<Longrightarrow> subtreeOf hp (treeFrom n hp h)"
proof (induction n arbitrary: h)
  case 0
  then show ?case by simp
next
  case (Suc n)
  have c: "\<forall>c \<in> set (childFrames (hp ! h)). h < c \<and> c < length hp"
    using assms Suc.prems(1) unfolding heap_ok_def by blast
  have "subtreeOf hp (treeFrom n hp c)" if "c \<in> set (childFrames (hp ! h))" for c
  proof -
    have "h < c" "c < length hp" using c that by blast+
    then show ?thesis using Suc.IH[of c] Suc.prems(2) by simp
  qed
  then show ?case using Suc.prems(1) by (simp add: comp_def)
qed

lemma subtree_nodes:
  assumes ok: "heap_ok hp"
  shows "subtreeOf hp t \<Longrightarrow> x \<in> set (postorder t) \<Longrightarrow>
         x < length hp \<and> root t \<le> x \<and>
         (x \<noteq> root t \<longrightarrow> (\<exists>y \<in> set (postorder t). parentFrame (hp ! x) = Some y))"
proof (induction t arbitrary: x)
  case (FrameTree h ts)
  show ?case
  proof (cases "x = h")
    case True
    then show ?thesis using FrameTree.prems by simp
  next
    case False
    then obtain t where t: "t \<in> set ts" "x \<in> set (postorder t)"
      using FrameTree.prems(2) by auto
    then have st: "subtreeOf hp t" using FrameTree.prems(1) by simp
    note ih = FrameTree.IH[OF t(1) st t(2)]
    have hl: "h < length hp" and mr: "map root ts = childFrames (hp ! h)"
      using FrameTree.prems(1) by simp_all
    have "root t \<in> set (map root ts)" using t(1) by simp
    then have rc: "root t \<in> set (childFrames (hp ! h))" using mr by simp
    have rt: "h < root t" "parentFrame (hp ! root t) = Some h"
      using ok hl rc unfolding heap_ok_def by blast+
    have sub: "set (postorder t) \<subseteq> set (postorder (FrameTree h ts))"
      using t(1) by auto
    have par: "\<exists>y \<in> set (postorder (FrameTree h ts)). parentFrame (hp ! x) = Some y"
    proof (cases "x = root t")
      case True
      then show ?thesis using rt(2) by simp
    next
      case False
      then obtain y where "y \<in> set (postorder t)" "parentFrame (hp ! x) = Some y" using ih by blast
      then show ?thesis using sub by blast
    qed
    have 1: "x < length hp" using ih by blast
    have 2: "root (FrameTree h ts) \<le> x" using ih rt(1) by simp
    show ?thesis using 1 2 par by blast
  qed
qed

lemma siblings_disjoint:
  assumes ok: "heap_ok hp" and t: "subtreeOf hp t" and t': "subtreeOf hp t'"
    and p: "parentFrame (hp ! root t) = Some f" and p': "parentFrame (hp ! root t') = Some f"
    and ne: "root t \<noteq> root t'"
  shows "set (postorder t) \<inter> set (postorder t') = {}" and "f \<notin> set (postorder t)"
proof -
  have lt: "f < root t" "f < root t'"
    using ok p p' subtree_nodes[OF ok t root_in_postorder] subtree_nodes[OF ok t' root_in_postorder]
    unfolding heap_ok_def by blast+
  show f: "f \<notin> set (postorder t)" using subtree_nodes[OF ok t, of f] lt by auto
  have f': "f \<notin> set (postorder t')" using subtree_nodes[OF ok t', of f] lt by auto
  have "x \<in> set (postorder t) \<Longrightarrow> x \<notin> set (postorder t')" for x
  proof (induction x rule: less_induct)
    case (less x)
    show ?case
    proof
      assume x': "x \<in> set (postorder t')"
      note a = subtree_nodes[OF ok t less.prems]
      note b = subtree_nodes[OF ok t' x']
      show False
      proof (cases "x = root t")
        case True
        then have "x \<noteq> root t'" using ne by simp
        then show False using b p True f' by auto
      next
        case False
        then obtain y where y: "y \<in> set (postorder t)" "parentFrame (hp ! x) = Some y" using a by blast
        show False
        proof (cases "x = root t'")
          case True
          then show False using y p' f by auto
        next
          case False
          then have y': "y \<in> set (postorder t')" using b y(2) by auto
          have "y < x" using ok a y(2) unfolding heap_ok_def by blast
          then show False using less.IH[OF _ y(1)] y' by blast
        qed
      qed
    qed
  qed
  then show "set (postorder t) \<inter> set (postorder t') = {}" by blast
qed

lemma subtreeOf_cong:
  assumes "length hp' = length hp"
  shows "(\<forall>x \<in> set (postorder t). childFrames (hp' ! x) = childFrames (hp ! x))
     \<Longrightarrow> subtreeOf hp' t = subtreeOf hp t"
proof (induction t)
  case (FrameTree h ts)
  have "subtreeOf hp' t = subtreeOf hp t" if "t \<in> set ts" for t
    using FrameTree.IH[OF that] FrameTree.prems that by auto
  then show ?case using FrameTree.prems assms by auto
qed

lemma heap_ok_children:
  "heap_ok hp \<Longrightarrow> h < length hp \<Longrightarrow> c \<in> set (childFrames (hp ! h))
     \<Longrightarrow> h < c \<and> c < length hp \<and> parentFrame (hp ! c) = Some h"
  unfolding heap_ok_def by blast

lemma heap_ok_distinct: "heap_ok hp \<Longrightarrow> h < length hp \<Longrightarrow> distinct (childFrames (hp ! h))"
  unfolding heap_ok_def by blast

lemma heap_ok_parent:
  "heap_ok hp \<Longrightarrow> h < length hp \<Longrightarrow> parentFrame (hp ! h) = Some p
     \<Longrightarrow> p < h \<and> h \<in> set (childFrames (hp ! p))"
  unfolding heap_ok_def by blast

lemma children_subtrees:
  assumes ok: "heap_ok hp" and st: "subtreeOf hp (FrameTree h ts)"
  shows "h < length hp" and "map root ts = childFrames (hp ! h)" and "distinct (map root ts)"
    and "\<forall>t \<in> set ts. subtreeOf hp t \<and> parentFrame (hp ! root t) = Some h \<and> h < root t"
    and "h \<notin> set (concat (map postorder ts))"
proof -
  show hl: "h < length hp" and mr: "map root ts = childFrames (hp ! h)" using st by simp_all
  show "distinct (map root ts)" using heap_ok_distinct[OF ok hl] mr by simp
  show par: "\<forall>t \<in> set ts. subtreeOf hp t \<and> parentFrame (hp ! root t) = Some h \<and> h < root t"
  proof
    fix t assume t: "t \<in> set ts"
    then have "root t \<in> set (map root ts)" by simp
    then have "root t \<in> set (childFrames (hp ! h))" using mr by simp
    then have "parentFrame (hp ! root t) = Some h \<and> h < root t"
      using heap_ok_children[OF ok hl] by blast
    moreover have "subtreeOf hp t" using st t by simp
    ultimately show "subtreeOf hp t \<and> parentFrame (hp ! root t) = Some h \<and> h < root t" by blast
  qed
  show "h \<notin> set (concat (map postorder ts))"
  proof
    assume "h \<in> set (concat (map postorder ts))"
    then obtain t where t: "t \<in> set ts" "h \<in> set (postorder t)" by auto
    have "h < root t" "subtreeOf hp t" using par t(1) by blast+
    moreover have "root t \<le> h" using subtree_nodes[OF ok \<open>subtreeOf hp t\<close> t(2)] by blast
    ultimately show False by simp
  qed
qed

lemma distinct_concat_postorder:
  assumes ok: "heap_ok hp"
    and ts: "\<forall>t \<in> set ts. subtreeOf hp t \<and> parentFrame (hp ! root t) = Some f \<and> distinct (postorder t)"
    and d: "distinct (map root ts)"
  shows "distinct (concat (map postorder ts))"
  using ts d
proof (induction ts)
  case Nil
  then show ?case by simp
next
  case (Cons t ts)
  have "set (postorder t) \<inter> set (postorder t') = {}" if "t' \<in> set ts" for t'
  proof -
    have "root t \<noteq> root t'" using Cons.prems(2) that by auto
    then show ?thesis using siblings_disjoint(1)[OF ok, of t t' f] Cons.prems(1) that by simp
  qed
  then have "set (postorder t) \<inter> set (concat (map postorder ts)) = {}" by auto
  then show ?case using Cons by simp
qed

lemma distinct_postorder:
  assumes ok: "heap_ok hp"
  shows "subtreeOf hp t \<Longrightarrow> distinct (postorder t)"
proof (induction t)
  case (FrameTree h ts)
  note c = children_subtrees[OF ok FrameTree.prems]
  have "\<forall>t \<in> set ts. subtreeOf hp t \<and> parentFrame (hp ! root t) = Some h \<and> distinct (postorder t)"
    using c(4) FrameTree.IH by blast
  then have "distinct (concat (map postorder ts))"
    using distinct_concat_postorder[OF ok _ c(3)] by blast
  then show ?case using c(5) by simp
qed

lemma precedes_append: "precedes a b xs \<Longrightarrow> precedes a b (us @ xs @ ws)"
proof -
  assume "precedes a b xs"
  then obtain u v w where "xs = u @ a # v @ b # w" unfolding precedes_def by blast
  then have "us @ xs @ ws = (us @ u) @ a # v @ b # (w @ ws)" by simp
  then show ?thesis unfolding precedes_def by blast
qed

lemma children_precede:
  "subtreeOf hp t \<Longrightarrow> p \<in> set (postorder t) \<Longrightarrow> c \<in> set (childFrames (hp ! p))
     \<Longrightarrow> distinct (postorder t) \<Longrightarrow> precedes c p (postorder t)"
proof (induction t)
  case (FrameTree h ts)
  show ?case
  proof (cases "p = h")
    case True
    then have "c \<in> set (map root ts)" using FrameTree.prems(1,3) by simp
    then obtain t where t: "t \<in> set ts" "c = root t" by auto
    then obtain A B where ab: "ts = A @ t # B" by (meson split_list)
    have "postorder t = descendants t @ [c]" using t(2) postorder_descendants by simp
    then have "postorder (FrameTree h ts) =
       (concat (map postorder A) @ descendants t) @ c # concat (map postorder B) @ p # []"
      using ab True by simp
    then show ?thesis unfolding precedes_def by blast
  next
    case False
    then obtain t where t: "t \<in> set ts" "p \<in> set (postorder t)" using FrameTree.prems(2) by auto
    then obtain A B where ab: "ts = A @ t # B" by (meson split_list)
    have e: "postorder (FrameTree h ts) = concat (map postorder A) @ postorder t @ (concat (map postorder B) @ [h])"
      using ab by simp
    have "distinct (postorder t)" using FrameTree.prems(4) e by simp
    then have "precedes c p (postorder t)"
      using FrameTree.IH[OF t(1) _ t(2) FrameTree.prems(3)] FrameTree.prems(1) t(1) by simp
    then show ?thesis unfolding e by (rule precedes_append)
  qed
qed

lemma precedes_detachEvents:
  assumes "precedes c p hs"
  shows "precedes (FM_FrameDetached c) (FM_FrameDetached p) (detachEvents hs)"
proof -
  from assms obtain us vs ws where "hs = us @ c # vs @ p # ws" unfolding precedes_def by blast
  then have "detachEvents hs = detachEvents us @ FM_FrameDetached c #
      (Page_FrameDetached c # detachEvents vs) @ FM_FrameDetached p # (Page_FrameDetached p # detachEvents ws)"
    unfolding detachEvents_def by simp
  then show ?thesis unfolding precedes_def by blast
qed

lemma detachEvents_simps [simp]:
  "detachEvents [] = []"
  "detachEvents (xs @ ys) = detachEvents xs @ detachEvents ys"
  "detachEvents [h] = [FM_FrameDetached h, Page_FrameDetached h]"
  unfolding detachEvents_def by simp_all

lemma Frame_onDetached_other:
  assumes "h \<noteq> f" "parentFrame (hp ! f) \<noteq> Some h"
  shows "Frame_onDetached f hp ! h = hp ! h"
  using assms unfolding Frame_onDetached_def
  by (cases "parentFrame (hp ! f)") (simp_all add: Let_def nth_upd)

lemma Frame_onDetached_parent_other:
  assumes "h \<noteq> f"
  shows "parentFrame (Frame_onDetached f hp ! h) = parentFrame (hp ! h)"
  using assms unfolding Frame_onDetached_def
  by (cases "parentFrame (hp ! f)") (simp_all add: Let_def nth_upd)

lemma subtreeOf_root_valid: "subtreeOf hp t \<Longrightarrow> root t < length hp"
  by (cases t) simp

lemma removal_events:
  "removeFramesRecursively n g s = Some s' \<longrightarrow>
     (\<forall>t. invariant s \<and> subtreeOf (heap s) t \<and> root t = g \<longrightarrow>
        emitted s' = emitted s @ detachEvents (postorder t) \<and>
        (\<forall>h. h \<notin> set (postorder t) \<longrightarrow> parentFrame (heap s' ! h) = parentFrame (heap s ! h)) \<and>
        (\<forall>h. h \<notin> set (postorder t) \<and> parentFrame (heap s ! g) \<noteq> Some h \<longrightarrow> heap s' ! h = heap s ! h))"
  "removeFrames n cs s = Some s' \<longrightarrow>
     (\<forall>ts f. invariant s \<and> map root ts = cs \<and> distinct cs \<and>
          (\<forall>t \<in> set ts. subtreeOf (heap s) t \<and> parentFrame (heap s ! root t) = Some f) \<longrightarrow>
        emitted s' = emitted s @ detachEvents (concat (map postorder ts)) \<and>
        (\<forall>h. h \<notin> set (concat (map postorder ts)) \<longrightarrow> parentFrame (heap s' ! h) = parentFrame (heap s ! h)) \<and>
        (\<forall>h. h \<notin> set (concat (map postorder ts)) \<and> h \<noteq> f \<longrightarrow> heap s' ! h = heap s ! h))"
proof (induction n g s and n cs s arbitrary: s' and s' rule: removeFramesRecursively_removeFrames.induct)
  case (1 f s)
  then show ?case by simp
next
  case (2 n g s)
  show ?case
  proof (intro impI allI)
    fix t
    assume run: "removeFramesRecursively (Suc n) g s = Some s'"
      and a: "invariant s \<and> subtreeOf (heap s) t \<and> root t = g"
    obtain ts where t: "t = FrameTree g ts" using a by (cases t) simp
    have ok: "heap_ok (heap s)" using a unfolding invariant_def by simp
    have st: "subtreeOf (heap s) (FrameTree g ts)" using a t by simp
    note c = children_subtrees[OF ok st]
    from run obtain s1 where s1: "removeFrames n (childFrames (heap s ! g)) s = Some s1"
      and s': "s' = removeFrame g s1" by (auto split: option.splits)
    have pre: "invariant s \<and> map root ts = childFrames (heap s ! g) \<and> distinct (childFrames (heap s ! g)) \<and>
          (\<forall>t \<in> set ts. subtreeOf (heap s) t \<and> parentFrame (heap s ! root t) = Some g)"
      using a c(2) c(3) c(4) by simp
    from "2.IH"[of s1, rule_format, OF s1 pre]
    have A: "emitted s1 = emitted s @ detachEvents (concat (map postorder ts))"
      and B: "\<And>h. h \<notin> set (concat (map postorder ts)) \<Longrightarrow> parentFrame (heap s1 ! h) = parentFrame (heap s ! h)"
      and C: "\<And>h. h \<notin> set (concat (map postorder ts)) \<Longrightarrow> h \<noteq> g \<Longrightarrow> heap s1 ! h = heap s ! h"
      by blast+
    have pg: "parentFrame (heap s1 ! g) = parentFrame (heap s ! g)" using B[OF c(5)] .
    have 1: "emitted s' = emitted s @ detachEvents (postorder t)"
      unfolding s' t using A by simp
    have 2: "parentFrame (heap s' ! h) = parentFrame (heap s ! h)" if "h \<notin> set (postorder t)" for h
    proof -
      have "h \<noteq> g" "h \<notin> set (concat (map postorder ts))" using that t by auto
      then show ?thesis unfolding s' using B[of h] by (simp add: Frame_onDetached_parent_other)
    qed
    have 3: "heap s' ! h = heap s ! h"
      if "h \<notin> set (postorder t) \<and> parentFrame (heap s ! g) \<noteq> Some h" for h
    proof -
      have h: "h \<noteq> g" "h \<notin> set (concat (map postorder ts))" using that t by auto
      have "parentFrame (heap s1 ! g) \<noteq> Some h" using pg that by simp
      then have "Frame_onDetached g (heap s1) ! h = heap s1 ! h"
        using Frame_onDetached_other[OF h(1)] by simp
      then show ?thesis unfolding s' using C[OF h(2) h(1)] by simp
    qed
    show "emitted s' = emitted s @ detachEvents (postorder t) \<and>
        (\<forall>h. h \<notin> set (postorder t) \<longrightarrow> parentFrame (heap s' ! h) = parentFrame (heap s ! h)) \<and>
        (\<forall>h. h \<notin> set (postorder t) \<and> parentFrame (heap s ! g) \<noteq> Some h \<longrightarrow> heap s' ! h = heap s ! h)"
      using 1 2 3 by blast
  qed
next
  case (3 n s)
  then show ?case by (simp add: detachEvents_def)
next
  case (4 n c cs s)
  show ?case
  proof (intro impI allI)
    fix ts0 f
    assume run: "removeFrames n (c # cs) s = Some s'"
      and a: "invariant s \<and> map root ts0 = c # cs \<and> distinct (c # cs) \<and>
          (\<forall>t \<in> set ts0. subtreeOf (heap s) t \<and> parentFrame (heap s ! root t) = Some f)"
    then obtain t ts where ts0: "ts0 = t # ts" "root t = c" "map root ts = cs" by (cases ts0) auto
    have ok: "heap_ok (heap s)" and inv: "invariant s" using a unfolding invariant_def by simp_all
    have t: "subtreeOf (heap s) t" "parentFrame (heap s ! c) = Some f" using a ts0 by auto
    from run obtain s1 where s1: "removeFramesRecursively n c s = Some s1"
      and s': "removeFrames n cs s1 = Some s'" by (auto split: option.splits)
    have cv: "c < length (heap s)" using subtreeOf_root_valid[OF t(1)] ts0(2) by simp
    have i1: "invariant s1" "length (heap s1) = length (heap s)"
      using removal_invariant(1)[of n c s s1] s1 inv cv by blast+
    from "4.IH"(1)[of s1, rule_format, OF s1, of t] inv t ts0(2)
    have A: "emitted s1 = emitted s @ detachEvents (postorder t)"
      and B: "\<And>h. h \<notin> set (postorder t) \<Longrightarrow> parentFrame (heap s1 ! h) = parentFrame (heap s ! h)"
      and C: "\<And>h. h \<notin> set (postorder t) \<Longrightarrow> h \<noteq> f \<Longrightarrow> heap s1 ! h = heap s ! h"
      by auto
    have keep: "subtreeOf (heap s1) t' \<and> parentFrame (heap s1 ! root t') = Some f" if "t' \<in> set ts" for t'
    proof -
      have t': "subtreeOf (heap s) t'" "parentFrame (heap s ! root t') = Some f"
        using a ts0(1) that by auto
      have "root t' \<in> set cs" using that ts0(3) by auto
      then have ne: "root t' \<noteq> root t" using a ts0(2) by auto
      have dis: "set (postorder t') \<inter> set (postorder t) = {}" "f \<notin> set (postorder t')"
        using siblings_disjoint[OF ok t'(1) t(1) t'(2) _ ne] t(2) ts0(2) by simp_all
      have same: "\<forall>x \<in> set (postorder t'). heap s1 ! x = heap s ! x"
      proof
        fix x assume x: "x \<in> set (postorder t')"
        then have "x \<notin> set (postorder t)" "x \<noteq> f" using dis by auto
        then show "heap s1 ! x = heap s ! x" using C by simp
      qed
      then have "subtreeOf (heap s1) t' = subtreeOf (heap s) t'"
        using subtreeOf_cong[OF i1(2), of t'] by simp
      moreover have "heap s1 ! root t' = heap s ! root t'" using same root_in_postorder by blast
      ultimately show ?thesis using t' by simp
    qed
    have pre: "invariant s1 \<and> map root ts = cs \<and> distinct cs \<and>
          (\<forall>t \<in> set ts. subtreeOf (heap s1) t \<and> parentFrame (heap s1 ! root t) = Some f)"
      using i1(1) ts0(3) a keep by simp
    from "4.IH"(2)[OF s1, of s', rule_format, OF s' pre]
    have A2: "emitted s' = emitted s1 @ detachEvents (concat (map postorder ts))"
      and B2: "\<And>h. h \<notin> set (concat (map postorder ts)) \<Longrightarrow> parentFrame (heap s' ! h) = parentFrame (heap s1 ! h)"
      and C2: "\<And>h. h \<notin> set (concat (map postorder ts)) \<Longrightarrow> h \<noteq> f \<Longrightarrow> heap s' ! h = heap s1 ! h"
      by blast+
    have 1: "emitted s' = emitted s @ detachEvents (concat (map postorder ts0))"
      using A A2 ts0(1) by simp
    have 2: "parentFrame (heap s' ! h) = parentFrame (heap s ! h)"
      if "h \<notin> set (concat (map postorder ts0))" for h
      using that ts0(1) B[of h] B2[of h] by simp
    have 3: "heap s' ! h = heap s ! h"
      if "h \<notin> set (concat (map postorder ts0)) \<and> h \<noteq> f" for h
      using that ts0(1) C[of h] C2[of h] by simp
    show "emitted s' = emitted s @ detachEvents (concat (map postorder ts0)) \<and>
        (\<forall>h. h \<notin> set (concat (map postorder ts0)) \<longrightarrow> parentFrame (heap s' ! h) = parentFrame (heap s ! h)) \<and>
        (\<forall>h. h \<notin> set (concat (map postorder ts0)) \<and> h \<noteq> f \<longrightarrow> heap s' ! h = heap s ! h)"
      using 1 2 3 by blast
  qed
qed

lemma removal_unregisters:
  "removeFramesRecursively n g s = Some s' \<longrightarrow>
     (\<forall>t. invariant s \<and> subtreeOf (heap s) t \<and> root t = g \<longrightarrow>
        (\<forall>h \<in> set (postorder t). frames_map s' (data_id (heap s ! h)) = None))"
  "removeFrames n cs s = Some s' \<longrightarrow>
     (\<forall>ts f. invariant s \<and> map root ts = cs \<and> distinct cs \<and>
          (\<forall>t \<in> set ts. subtreeOf (heap s) t \<and> parentFrame (heap s ! root t) = Some f) \<longrightarrow>
        (\<forall>h \<in> set (concat (map postorder ts)). frames_map s' (data_id (heap s ! h)) = None))"
proof (induction n g s and n cs s arbitrary: s' and s' rule: removeFramesRecursively_removeFrames.induct)
  case (1 f s)
  then show ?case by simp
next
  case (2 n g s)
  show ?case
  proof (intro impI allI)
    fix t
    assume run: "removeFramesRecursively (Suc n) g s = Some s'"
      and a: "invariant s \<and> subtreeOf (heap s) t \<and> root t = g"
    obtain ts where t: "t = FrameTree g ts" using a by (cases t) simp
    have ok: "heap_ok (heap s)" using a unfolding invariant_def by simp
    have st: "subtreeOf (heap s) (FrameTree g ts)" using a t by simp
    note c = children_subtrees[OF ok st]
    from run obtain s1 where s1: "removeFrames n (childFrames (heap s ! g)) s = Some s1"
      and s': "s' = removeFrame g s1" by (auto split: option.splits)
    have pre: "invariant s \<and> map root ts = childFrames (heap s ! g) \<and> distinct (childFrames (heap s ! g)) \<and>
          (\<forall>t \<in> set ts. subtreeOf (heap s) t \<and> parentFrame (heap s ! root t) = Some g)"
      using a c(2) c(3) c(4) by simp
    from "2.IH"[of s1, rule_format, OF s1 pre]
    have A: "\<forall>h \<in> set (concat (map postorder ts)). frames_map s1 (data_id (heap s ! h)) = None" by blast
    have d: "data_id (heap s1 ! g) = data_id (heap s ! g)" using removal_keeps(2) s1 by blast
    show "\<forall>h \<in> set (postorder t). frames_map s' (data_id (heap s ! h)) = None"
      unfolding s' t using A d by simp
  qed
next
  case (3 n s)
  then show ?case by simp
next
  case (4 n c cs s)
  show ?case
  proof (intro impI allI)
    fix ts0 f
    assume run: "removeFrames n (c # cs) s = Some s'"
      and a: "invariant s \<and> map root ts0 = c # cs \<and> distinct (c # cs) \<and>
          (\<forall>t \<in> set ts0. subtreeOf (heap s) t \<and> parentFrame (heap s ! root t) = Some f)"
    then obtain t ts where ts0: "ts0 = t # ts" "root t = c" "map root ts = cs" by (cases ts0) auto
    have ok: "heap_ok (heap s)" and inv: "invariant s" using a unfolding invariant_def by simp_all
    have t: "subtreeOf (heap s) t" "parentFrame (heap s ! c) = Some f" using a ts0 by auto
    from run obtain s1 where s1: "removeFramesRecursively n c s = Some s1"
      and s': "removeFrames n cs s1 = Some s'" by (auto split: option.splits)
    have cv: "c < length (heap s)" using subtreeOf_root_valid[OF t(1)] ts0(2) by simp
    have i1: "invariant s1" "length (heap s1) = length (heap s)"
      using removal_invariant(1)[of n c s s1] s1 inv cv by blast+
    from "4.IH"(1)[of s1, rule_format, OF s1, of t] inv t ts0(2)
    have A: "\<forall>h \<in> set (postorder t). frames_map s1 (data_id (heap s ! h)) = None" by auto
    have C: "\<And>h. h \<notin> set (postorder t) \<Longrightarrow> h \<noteq> f \<Longrightarrow> heap s1 ! h = heap s ! h"
      using removal_events(1)[of n c s s1] s1 inv t ts0(2) by auto
    have keep: "subtreeOf (heap s1) t' \<and> parentFrame (heap s1 ! root t') = Some f" if "t' \<in> set ts" for t'
    proof -
      have t': "subtreeOf (heap s) t'" "parentFrame (heap s ! root t') = Some f"
        using a ts0(1) that by auto
      have "root t' \<in> set cs" using that ts0(3) by auto
      then have ne: "root t' \<noteq> root t" using a ts0(2) by auto
      have dis: "set (postorder t') \<inter> set (postorder t) = {}" "f \<notin> set (postorder t')"
        using siblings_disjoint[OF ok t'(1) t(1) t'(2) _ ne] t(2) ts0(2) by simp_all
      have same: "\<forall>x \<in> set (postorder t'). heap s1 ! x = heap s ! x"
      proof
        fix x assume x: "x \<in> set (postorder t')"
        then have "x \<notin> set (postorder t)" "x \<noteq> f" using dis by auto
        then show "heap s1 ! x = heap s ! x" using C by simp
      qed
      then have "subtreeOf (heap s1) t' = subtreeOf (heap s) t'"
        using subtreeOf_cong[OF i1(2), of t'] by simp
      moreover have "heap s1 ! root t' = heap s ! root t'" using same root_in_postorder by blast
      ultimately show ?thesis using t' by simp
    qed
    have pre: "invariant s1 \<and> map root ts = cs \<and> distinct cs \<and>
          (\<forall>t \<in> set ts. subtreeOf (heap s1) t \<and> parentFrame (heap s1 ! root t) = Some f)"
      using i1(1) ts0(3) a keep by simp
    from "4.IH"(2)[OF s1, of s', rule_format, OF s' pre]
    have A2: "\<forall>h \<in> set (concat (map postorder ts)). frames_map s' (data_id (heap s1 ! h)) = None" by blast
    have mono: "\<And>k. frames_map s1 k = None \<Longrightarrow> frames_map s' k = None"
      using removal_keeps(2)[of n cs s1 s'] s' by (metis not_Some_eq)
    have did: "\<And>h. data_id (heap s1 ! h) = data_id (heap s ! h)"
      using removal_keeps(1)[of n c s s1] s1 by blast
    show "\<forall>h \<in> set (concat (map postorder ts0)). frames_map s' (data_id (heap s ! h)) = None"
      using A A2 mono did ts0(1) by auto
  qed
qed

lemma precedes_member: "precedes a b xs \<Longrightarrow> a \<in> set xs"
  unfolding precedes_def by auto

lemma example_page_frames:
  "childFrames (heap example_page ! 0) = [Suc 0]"
  "childFrames (heap example_page ! Suc 0) = []"
  "data_id (heap example_page ! 0) = ''main''"
  "data_id (heap example_page ! Suc 0) = ''child''"
  unfolding example_page_def
  by (simp_all add: initial_def onFrameAttached_def onExecutionContextCreated_def onLifecycleEvent_def
      truthy_def Frame_new_def newFrame_def emit_def Frame_contextCreated_def Frame_lifecycleEvent_def
      Let_def nth_upd nth_append)

lemma example_page_tree: "frameTree example_page 0 = FrameTree 0 [FrameTree (Suc 0) []]"
  unfolding frameTree_def
  by (simp add: example_page_simps example_page_frames numeral_2_eq_2)

subsection \<open>Claims\<close>

text \<open>
  C9. \<open>_onExecutionContextCreated\<close> is idempotent by context id: a payload whose id is
  already registered changes nothing, and the context registered first remains; a payload
  whose frame id is not in the frame registry changes nothing either.
\<close>

theorem onExecutionContextCreated_idempotent:
  "(map_of (contextIdToContext s) (cp_id p) = Some c \<longrightarrow>
      onExecutionContextCreated p s = s \<and>
      map_of (contextIdToContext (onExecutionContextCreated p s)) (cp_id p) = Some c) \<and>
   (frame (cp_frameId p) s = None \<longrightarrow> onExecutionContextCreated p s = s)"
  unfolding onExecutionContextCreated_def frame_def by simp

theorem onExecutionContextCreated_idempotent_witness:
  "map_of (contextIdToContext example_page) 7 = Some \<lparr>contextId = 7, context_frame = 0\<rparr> \<and>
   onExecutionContextCreated \<lparr>cp_id = 7, cp_frameId = ''child'', cp_isPageContext = True, cp_name = []\<rparr>
      example_page = example_page \<and>
   frame ''gone'' example_page = None \<and>
   onExecutionContextCreated \<lparr>cp_id = 8, cp_frameId = ''gone'', cp_isPageContext = True, cp_name = []\<rparr>
      example_page = example_page"
  using onExecutionContextCreated_idempotent[of example_page
          "\<lparr>cp_id = 7, cp_frameId = ''child'', cp_isPageContext = True, cp_name = []\<rparr>"
          "\<lparr>contextId = 7, context_frame = 0\<rparr>"]
        onExecutionContextCreated_idempotent[of example_page
          "\<lparr>cp_id = 8, cp_frameId = ''gone'', cp_isPageContext = True, cp_name = []\<rparr>"]
  by (simp add: example_page_simps frame_def)

text \<open>
  C6. When loading stops for a registered frame, both lifecycle events are marked as fired
  on it, and the page-level DOMContentLoaded and Load events are emitted once each only
  for the main frame and only for an event that had not fired before: for a main frame
  that had seen DOMContentLoaded but not Load, Load is emitted on the page exactly once
  and DOMContentLoaded is not emitted again.
\<close>

theorem onFrameStoppedLoading_synthesis:
  assumes "frame frameId s = Some f" and "f < length (heap s)"
  shows "\<exists>s' new. onFrameStoppedLoading frameId s = Inr s' \<and>
           {DOMContentLoaded, Load} \<subseteq> firedLifecycleEvents (heap s' ! f) \<and>
           emitted s' = emitted s @ new \<and>
           count_list new Page_DOMContentLoaded =
             (if mainFrame s = Some f \<and> DOMContentLoaded \<notin> firedLifecycleEvents (heap s ! f) then 1 else 0) \<and>
           count_list new Page_Load =
             (if mainFrame s = Some f \<and> Load \<notin> firedLifecycleEvents (heap s ! f) then 1 else 0)"
  using assms unfolding onFrameStoppedLoading_def frame_def
  by (simp add: Let_def emit_def Frame_lifecycleEvent_def)

theorem onFrameStoppedLoading_synthesis_witness:
  "frame ''main'' example_page = Some 0 \<and> 0 < length (heap example_page) \<and>
   mainFrame example_page = Some 0 \<and>
   firedLifecycleEvents (heap example_page ! 0) = {DOMContentLoaded} \<and>
   (\<exists>s' new. onFrameStoppedLoading ''main'' example_page = Inr s' \<and>
       {DOMContentLoaded, Load} \<subseteq> firedLifecycleEvents (heap s' ! 0) \<and>
       emitted s' = emitted example_page @ new \<and>
       count_list new Page_DOMContentLoaded = 0 \<and> count_list new Page_Load = 1)"
  using onFrameStoppedLoading_synthesis[of "''main''" example_page 0]
  by (simp add: example_page_simps frame_def)

text \<open>
  C1. A navigation of the main frame (a payload without parent id) in any reachable state
  with a main frame returns, and \<open>mainFrame()\<close> is the same Frame object before and after;
  the object is then registered under the payload id, carries it as its frame id, and its
  previous id, when different, is no longer registered. The state after the navigation is
  reachable again, so this holds for each navigation of a sequence. The value \<open>n\<close> of the
  module's counter at the call is arbitrary.
\<close>

theorem mainFrame_identity_preserved:
  assumes "reachable s" and "mainFrame s = Some m" and "\<not> truthy (payload_parentId p)"
  shows "\<exists>n' s'. onFrameNavigated p init n s = Inr (n', s') \<and> reachable s' \<and>
           mainFrame s' = Some m \<and>
           frame (payload_id p) s' = Some m \<and>
           frameData_id m s' = payload_id p \<and>
           (frameData_id m s \<noteq> payload_id p \<longrightarrow> frame (frameData_id m s) s' = None)"
proof -
  have inv: "invariant s" using assms(1) reachable_invariant by blast
  have t: "(if \<not> truthy (payload_parentId p) then mainFrame s else frames_map s (payload_id p)) = Some m"
    using assms by simp
  obtain n' s' where run: "onFrameNavigated p init n s = Inr (n', s')"
    using onFrameNavigated_returns[OF inv t] by blast
  have re: "reachable s'" using reachable_call[OF assms(1), of "Navigate p init" n n' s'] run by simp
  from run obtain f s1 where
    t': "(if \<not> truthy (payload_parentId p) then mainFrame s else frames_map s (payload_id p)) = Some f"
    and s1: "removeFrames (length (heap s)) (childFrames (heap s ! f)) s = Some s1"
    and mf: "mainFrame s' = mainFrame s1"
    and fm: "frames_map s' = (if \<not> truthy (payload_parentId p)
        then ((frames_map s1)(data_id (heap s1 ! f) := None))(payload_id p \<mapsto> f) else frames_map s1)"
    and sh: "shape (heap s') = shape (if \<not> truthy (payload_parentId p)
        then (heap s1)[f := (heap s1 ! f)\<lparr>data_id := payload_id p\<rparr>] else heap s1)"
    by (rule onFrameNavigated_Inr)
  have fm_eq: "f = m" using t t' by simp
  have m: "m < length (heap s)" using target_valid[OF inv t] .
  have len: "length (heap s1) = length (heap s)"
    using removal_invariant(2) s1 inv children_valid[OF inv m] fm_eq by blast
  have keep: "mainFrame s1 = mainFrame s" "data_id (heap s1 ! m) = data_id (heap s ! m)"
    using removal_keeps(2) s1 by blast+
  have sh': "shape (heap s') = shape ((heap s1)[m := (heap s1 ! m)\<lparr>data_id := payload_id p\<rparr>])"
    using sh assms(3) fm_eq by simp
  have "data_id (heap s' ! m) = data_id ((heap s1)[m := (heap s1 ! m)\<lparr>data_id := payload_id p\<rparr>] ! m)"
    by (rule shape_nth(3)[OF sh']) (simp add: len m)
  then have did: "data_id (heap s' ! m) = payload_id p" using m len by simp
  have fm': "frames_map s' = ((frames_map s1)(data_id (heap s ! m) := None))(payload_id p \<mapsto> m)"
    using fm assms(3) fm_eq keep(2) by simp
  show ?thesis
    using run re mf keep(1) assms(2) did fm'
    unfolding frame_def frameData_id_def by simp
qed

theorem mainFrame_identity_preserved_witness:
  "reachable example_page \<and> mainFrame example_page = Some 0 \<and>
   frameData_id 0 example_page = ''main'' \<and>
   (\<exists>n' s'. onFrameNavigated \<lparr>payload_id = ''main-2'', payload_parentId = None, payload_loaderId = ''L'',
             payload_url = ''https://b.example/'', payload_name = []\<rparr> False 4 example_page = Inr (n', s') \<and>
      mainFrame s' = Some 0 \<and> frame ''main-2'' s' = Some 0 \<and> frameData_id 0 s' = ''main-2'' \<and>
      frame ''main'' s' = None)"
proof -
  have d: "frameData_id 0 example_page = ''main''"
    unfolding frameData_id_def example_page_def
    by (simp add: initial_def onFrameAttached_def onExecutionContextCreated_def onLifecycleEvent_def
      truthy_def Frame_new_def newFrame_def emit_def Frame_contextCreated_def Frame_lifecycleEvent_def Let_def)
  show ?thesis
    using mainFrame_identity_preserved[OF reachable_example_page, of 0
       "\<lparr>payload_id = ''main-2'', payload_parentId = None, payload_loaderId = ''L'',
             payload_url = ''https://b.example/'', payload_name = []\<rparr>" False 4]
       reachable_example_page d
    by (auto simp: example_page_simps truthy_def)
qed

text \<open>
  C5. For a frame id that is not in the registry, \<open>_onFrameNavigatedWithinDocument\<close>,
  \<open>_onFrameDetached\<close>, \<open>_onFrameStoppedLoading\<close> and \<open>_onLifecycleEvent\<close> return with
  the state unchanged, but \<open>_onFrameNavigated\<close> for a subframe payload with such an id throws:
  it calls \<open>childFrames()\<close> on \<open>undefined\<close>.
\<close>

theorem onFrameNavigated_unknown_subframe_throws:
  "frame ''gone'' example_page = None \<and>
   onFrameNavigatedWithinDocument ''gone'' ''https://a.example/#x'' example_page = Inr example_page \<and>
   onFrameDetached ''gone'' example_page = Inr example_page \<and>
   onFrameStoppedLoading ''gone'' example_page = Inr example_page \<and>
   onLifecycleEvent ''gone'' Load example_page = Inr example_page \<and>
   onFrameNavigated \<lparr>payload_id = ''gone'', payload_parentId = Some ''main'', payload_loaderId = ''L'',
       payload_url = ''https://a.example/frame'', payload_name = []\<rparr> False 0 example_page = Inl TypeError"
proof -
  have n: "frames_map example_page ''gone'' = None" by (simp add: example_page_simps)
  show ?thesis
    using handlers_unknown_frame[OF n] n
    by (simp add: frame_def onFrameNavigated_unknown_frame truthy_def)
qed

text \<open>
  C8, as stated, fails: after a frame is attached under a parent id that is not registered,
  two registered frames have no parent.
\<close>

theorem two_registered_frames_without_parent:
  "frame ''A'' example_two_roots = Some 0 \<and> parentFrame (heap example_two_roots ! 0) = None \<and>
   frame ''B'' example_two_roots = Some 1 \<and> parentFrame (heap example_two_roots ! 1) = None \<and>
   mainFrame example_two_roots = Some 1"
  by (simp add: example_two_roots_simps frame_def)

text \<open>
  C8, amended. In every reachable state the frame returned by \<open>mainFrame()\<close>, once there is
  one, has no parent; every registered frame id maps to one existing Frame, which carries
  this id, so that no Frame is registered under two ids; and attaching an id that is in the
  registry fails the assertion.
\<close>

theorem registry_invariants:
  assumes "reachable s"
  shows "(\<forall>m. mainFrame s = Some m \<longrightarrow> m < length (heap s) \<and> parentFrame (heap s ! m) = None) \<and>
         (\<forall>k h. frame k s = Some h \<longrightarrow> h < length (heap s) \<and> frameData_id h s = k) \<and>
         (\<forall>k parentFrameId. frame k s \<noteq> None \<longrightarrow> onFrameAttached k parentFrameId s = Inl AssertionError)"
proof -
  have inv: "invariant s" using assms reachable_invariant by blast
  then show ?thesis
    unfolding invariant_def main_ok_def registry_ok_def frame_def frameData_id_def onFrameAttached_def
    by simp
qed

theorem registry_invariants_witness:
  "reachable example_two_roots \<and>
   mainFrame example_two_roots = Some 1 \<and> parentFrame (heap example_two_roots ! 1) = None \<and>
   frame ''A'' example_two_roots = Some 0 \<and> frameData_id 0 example_two_roots = ''A'' \<and>
   onFrameAttached ''A'' (Some ''B'') example_two_roots = Inl AssertionError"
proof -
  have r: "reachable example_two_roots" unfolding reachable_def example_two_roots_def by blast
  show ?thesis
    using registry_invariants[OF r] r
    by (simp add: example_two_roots_simps frame_def)
qed

text \<open>
  C4. In a process, whichever of its FrameManagers handles them, every navigation that
  \<open>_onFrameNavigated\<close> commits stores on its frame the document id made of the payload's
  loader id, \<open>::\<close> and the incremented counter of the module. Whatever the managers of the
  process handle between two navigations, the counter of the later one is larger, and its
  document id differs from the earlier one, also when both payloads carry the same loader
  id and also when the two navigations are handled by different managers. This is so as
  long as the counter is below 2^53 at the later navigation, that is, as long as it counts
  exactly; a process reaches 2^53 only after that many navigations.
\<close>

theorem document_ids_distinct:
  assumes "reachableProcess P"
    and "i < length (frameManagers P)"
    and "onFrameNavigated p1 init1 (lastDocumentId P) (frameManagers P ! i) = Inr (n1, m1)"
    and "navigationTarget p1 (frameManagers P ! i) = Some f1"
    and "Q = processEvents es (processEvent (Handle i (Navigate p1 init1)) P)"
    and "j < length (frameManagers Q)"
    and "onFrameNavigated p2 init2 (lastDocumentId Q) (frameManagers Q ! j) = Inr (n2, m2)"
    and "navigationTarget p2 (frameManagers Q ! j) = Some f2"
    and "lastDocumentId Q < 9007199254740992"
  shows "frame_lastDocumentId (heap m1 ! f1) = newDocumentId (payload_loaderId p1) n1 \<and>
         frame_lastDocumentId (heap m2 ! f2) = newDocumentId (payload_loaderId p2) n2 \<and>
         n1 < n2 \<and>
         frame_lastDocumentId (heap m2 ! f2) \<noteq> frame_lastDocumentId (heap m1 ! f1)"
proof -
  have inv: "invariant (frameManagers P ! i)"
    using reachableProcess_invariant[OF assms(1,2)] .
  let ?P1 = "processEvent (Handle i (Navigate p1 init1)) P"
  have c1: "lastDocumentId ?P1 = n1" using assms(2,3) by simp
  from assms(1) obtain es0 where "processEvents es0 processStart = P"
    unfolding reachableProcess_def by blast
  then have "processEvents (es0 @ Handle i (Navigate p1 init1) # es) processStart = Q"
    unfolding assms(5) processEvents_append by simp
  then have rq: "reachableProcess Q" unfolding reachableProcess_def by blast
  have invq: "invariant (frameManagers Q ! j)"
    using reachableProcess_invariant[OF rq assms(6)] .
  note a = onFrameNavigated_documentId[OF inv assms(3,4)]
  note b = onFrameNavigated_documentId[OF invq assms(7,8)]
  have "n1 \<le> lastDocumentId Q" using processEvents_counter[of ?P1 es] c1 assms(5) by simp
  moreover have "lastDocumentId Q < n2" using b(1) increment_gt[OF assms(9)] by simp
  ultimately have lt: "n1 < n2" by simp
  have "newDocumentId (payload_loaderId p2) n2 \<noteq> newDocumentId (payload_loaderId p1) n1"
    using newDocumentId_inj lt by fastforce
  then show ?thesis using a(2) b(2) lt by simp
qed

theorem document_ids_distinct_witness:
  "reachableProcess example_process \<and>
   frameManagers example_process = [example_main, example_main] \<and>
   lastDocumentId example_process = 0 \<and>
   onFrameNavigated example_payload False 0 example_main = Inr (1, example_navigated) \<and>
   navigationTarget example_payload example_main = Some 0 \<and>
   frame_lastDocumentId (heap example_navigated ! 0) = ''L1::1'' \<and>
   lastDocumentId (processEvent (Handle 0 (Navigate example_payload False)) example_process) = 1 \<and>
   frameManagers (processEvent (Handle 0 (Navigate example_payload False)) example_process)
     = [example_navigated, example_main] \<and>
   (\<exists>n2 m2. onFrameNavigated example_payload False 1 example_main = Inr (n2, m2) \<and>
      frame_lastDocumentId (heap m2 ! 0) \<noteq> ''L1::1'')"
proof -
  let ?Q = "processEvent (Handle 0 (Navigate example_payload False)) example_process"
  have r: "reachableProcess example_process"
    unfolding reachableProcess_def example_process_def by blast
  have t1: "navigationTarget example_payload example_main = Some 0"
    unfolding navigationTarget_def example_payload_def by (simp add: truthy_def example_main_simps)
  have q: "lastDocumentId ?Q = 1" "frameManagers ?Q = [example_navigated, example_main]"
    using example_navigated_run by (simp_all add: example_process_simps)
  have inv: "invariant example_main"
    unfolding example_main_def using calls_invariant[OF initial_invariant] .
  obtain n2 m2 where s2: "onFrameNavigated example_payload False 1 example_main = Inr (n2, m2)"
    using onFrameNavigated_returns[OF inv, of example_payload 0 False 1] t1
    unfolding navigationTarget_def by blast
  have "frame_lastDocumentId (heap example_navigated ! 0) = newDocumentId (payload_loaderId example_payload) (Suc 0) \<and>
      frame_lastDocumentId (heap m2 ! 0) = newDocumentId (payload_loaderId example_payload) n2 \<and>
      Suc 0 < n2 \<and>
      frame_lastDocumentId (heap m2 ! 0) \<noteq> frame_lastDocumentId (heap example_navigated ! 0)"
    by (rule document_ids_distinct[OF r, of 0 example_payload False "Suc 0" example_navigated 0 ?Q "[]"
        "Suc 0" example_payload False n2 m2 0])
       (use example_navigated_run t1 s2 q in \<open>simp_all add: example_process_simps\<close>)
  then have "frame_lastDocumentId (heap m2 ! 0) \<noteq> frame_lastDocumentId (heap example_navigated ! 0)"
    by blast
  then have "frame_lastDocumentId (heap m2 ! 0) \<noteq> ''L1::1''"
    using example_navigated_simps(2) by simp
  then show ?thesis
    using r example_navigated_run t1 s2 q example_navigated_simps(2)
    by (simp add: example_process_simps)
qed

text \<open>
  C3. The watcher is disposed once the race has resolved, with an error or with null, but
  not on every exit: when the awaited \<open>Page.navigate\<close> send of \<open>navigateFrame\<close> or the awaited
  \<open>frame.evaluate\<close> of \<open>setFrameContent\<close> rejects, the call exits with that error and the
  watcher it created is left undisposed. \<open>waitForFrameNavigation\<close> awaits nothing before
  the race.
\<close>

theorem watcher_left_undisposed:
  "fst (navigateFrame 30000 0 ''https://a.example/'' \<lparr>timeout = None, waitUntil = None\<rparr>
          (Rejected ''Protocol error (Page.navigate)'') Pending (None :: unit option))
     = Some (Inl ''Protocol error (Page.navigate)'') \<and>
   \<not> disposed (snd (navigateFrame 30000 0 ''https://a.example/'' \<lparr>timeout = None, waitUntil = None\<rparr>
          (Rejected ''Protocol error (Page.navigate)'') Pending (None :: unit option))) \<and>
   fst (setFrameContent 30000 0 ''<p>hello</p>'' \<lparr>timeout = None, waitUntil = None\<rparr>
          (Rejected ''Execution context was destroyed'') Pending)
     = Some (Inl ''Execution context was destroyed'') \<and>
   \<not> disposed (snd (setFrameContent 30000 0 ''<p>hello</p>'' \<lparr>timeout = None, waitUntil = None\<rparr>
          (Rejected ''Execution context was destroyed'') Pending)) \<and>
   disposed (snd (navigateFrame 30000 0 ''https://a.example/'' \<lparr>timeout = None, waitUntil = None\<rparr>
          (Resolved ()) (Resolved (Some ''Navigation timeout exceeded'')) (None :: unit option))) \<and>
   disposed (snd (waitForFrameNavigation 30000 0 \<lparr>timeout = None, waitUntil = None\<rparr>
          (Resolved None) (None :: unit option)))"
  unfolding navigateFrame_def setFrameContent_def waitForFrameNavigation_def
    LifecycleWatcher_new_def dispose_def
  by (simp add: Let_def)


text \<open>
  C7, as stated, fails in three ways. A message of level \<open>log\<close> whose first parameter is the
  binding sentinel (a page calling \<open>console.log\<close> with it, an object and a value) is not
  dispatched to the binding handler: the handler suspends on the main frame's context and,
  resumed, adds the message to the page as a console message. A \<open>debug\<close> message with the
  sentinel alone, or with an empty parameter array, throws and reaches neither the binding
  handler nor the page's console. A message with an object of a context that is not
  registered when the handler resumes (here context 7, when the main frame's context is
  context 9) throws instead of being hydrated.
\<close>

theorem sentinel_logged_as_console_message:
  "onConsoleMessage example_parse (example_message ''log'') example_page = AwaitingExecutionContext 0 \<and>
   onConsoleMessage_resumed example_parse (example_message ''log'') 7 example_page =
     Inr (emit (Page_ConsoleMessage ''log''
        [\<lparr>handle_context = 7, handle_remoteObject = \<lparr>ro_value = JSString BINDING_CALL_MESSAGE, ro_objectId = None\<rparr>\<rparr>,
         \<lparr>handle_context = 7, handle_remoteObject = \<lparr>ro_value = JSUndefined, ro_objectId = Some example_objectId\<rparr>\<rparr>,
         \<lparr>handle_context = 7, handle_remoteObject = \<lparr>ro_value = JSNumber 42, ro_objectId = None\<rparr>\<rparr>]
        \<lparr>loc_url = ''https://a.example/'', loc_lineNumber = 2, loc_columnNumber = 8\<rparr> None) example_page) \<and>
   onConsoleMessage example_parse
      ((example_message ''debug'')\<lparr>msg_parameters :=
          Some [\<lparr>ro_value = JSString BINDING_CALL_MESSAGE, ro_objectId = None\<rparr>]\<rparr>) example_page =
     Returned (Inl TypeError) \<and>
   onConsoleMessage example_parse ((example_message ''debug'')\<lparr>msg_parameters := Some []\<rparr>) example_page =
     Returned (Inl TypeError) \<and>
   onConsoleMessage_resumed example_parse (example_message ''log'') 9
      (onExecutionContextCreated
         \<lparr>cp_id = 9, cp_frameId = ''main'', cp_isPageContext = True, cp_name = []\<rparr> example_main) =
     Inl TypeError"
proof -
  have 1: "onConsoleMessage example_parse (example_message ''log'') example_page = AwaitingExecutionContext 0"
    unfolding onConsoleMessage_def isBindingCall_def example_message_def
    by (simp add: example_page_simps)
  have 2: "onConsoleMessage_resumed example_parse (example_message ''log'') 7 example_page =
     Inr (emit (Page_ConsoleMessage ''log''
        [\<lparr>handle_context = 7, handle_remoteObject = \<lparr>ro_value = JSString BINDING_CALL_MESSAGE, ro_objectId = None\<rparr>\<rparr>,
         \<lparr>handle_context = 7, handle_remoteObject = \<lparr>ro_value = JSUndefined, ro_objectId = Some example_objectId\<rparr>\<rparr>,
         \<lparr>handle_context = 7, handle_remoteObject = \<lparr>ro_value = JSNumber 42, ro_objectId = None\<rparr>\<rparr>]
        \<lparr>loc_url = ''https://a.example/'', loc_lineNumber = 2, loc_columnNumber = 8\<rparr> None) example_page)"
    unfolding onConsoleMessage_resumed_def derivedType_def example_message_def example_parameters_def
    by (simp add: example_page_simps example_objectId_truthy example_parse_def truthy_def)
  have 3: "onConsoleMessage example_parse
      ((example_message ''debug'')\<lparr>msg_parameters :=
          Some [\<lparr>ro_value = JSString BINDING_CALL_MESSAGE, ro_objectId = None\<rparr>]\<rparr>) example_page =
     Returned (Inl TypeError)"
    unfolding onConsoleMessage_def isBindingCall_def example_message_def
    by (simp add: Let_def)
  have 4: "onConsoleMessage example_parse ((example_message ''debug'')\<lparr>msg_parameters := Some []\<rparr>) example_page =
     Returned (Inl TypeError)"
    unfolding onConsoleMessage_def isBindingCall_def example_message_def
    by (simp add: Let_def)
  have 5: "onConsoleMessage_resumed example_parse (example_message ''log'') 9
      (onExecutionContextCreated
         \<lparr>cp_id = 9, cp_frameId = ''main'', cp_isPageContext = True, cp_name = []\<rparr> example_main) =
     Inl TypeError"
    unfolding onConsoleMessage_resumed_def example_message_def example_parameters_def
    by (simp add: example_context_replaced example_parse_def truthy_def example_objectId_def)
  show ?thesis using 1 2 3 4 5 by simp
qed

text \<open>
  C7, amended. A message of level \<open>debug\<close> whose first parameter's value is the sentinel,
  with a second parameter whose object id parses and a third parameter, is dispatched to
  the page's binding handler with the third parameter's value and the context that the
  parsed object id names, and nothing else is emitted. A message whose level is not
  \<open>debug\<close>, or that has no parameters, or whose first parameter's value is not the sentinel,
  is not dispatched there: the handler suspends on the execution context of the main frame
  (it throws when there is no main frame). When it resumes, in whatever state the manager
  is by then, and every object id names a context registered in that state, one console
  message is added whose handles are, parameter by parameter, in the context that the
  parameter's object id names, and in the context that the awaited promise resolved with
  for a parameter without object id; when some object id names no registered context, the
  handler throws.
\<close>

theorem console_routing:
  "(msg_level m = ''debug'' \<and> msg_parameters m = Some (p0 # p1 # p2 # rest) \<and>
    ro_value p0 = JSString BINDING_CALL_MESSAGE \<and> ro_objectId p1 = Some oid \<and>
    parse oid = Inr parsed \<longrightarrow>
      onConsoleMessage parse m s =
        Returned (Inr (emit (Page_BindingCalled (ro_value p2)
           (case injectedScriptId parsed of None \<Rightarrow> None
            | Some i \<Rightarrow> map_of (contextIdToContext s) i)) s))) \<and>
   (msg_level m \<noteq> ''debug'' \<or> msg_parameters m = None \<or>
    (\<exists>p ps'. msg_parameters m = Some (p # ps') \<and> ro_value p \<noteq> JSString BINDING_CALL_MESSAGE) \<longrightarrow>
      onConsoleMessage parse m s =
        (case mainFrame s of None \<Rightarrow> Returned (Inl TypeError) | Some f \<Rightarrow> AwaitingExecutionContext f)) \<and>
   (ps = (case msg_parameters m of None \<Rightarrow> [] | Some xs \<Rightarrow> xs) \<and>
    (\<forall>p \<in> set ps. truthy (ro_objectId p) \<longrightarrow>
        (\<exists>parsed i c. parse (the (ro_objectId p)) = Inr parsed \<and> injectedScriptId parsed = Some i \<and>
            map_of (contextIdToContext s2) i = Some c)) \<longrightarrow>
      (\<exists>handles. onConsoleMessage_resumed parse m mc s2 =
           Inr (emit (Page_ConsoleMessage (derivedType m) handles
                  \<lparr>loc_url = msg_url m, loc_lineNumber = msg_line m - 1, loc_columnNumber = msg_column m - 1\<rparr>
                  (if handles \<noteq> [] then None else Some (msg_text m))) s2) \<and>
         length handles = length ps \<and>
         (\<forall>i < length ps. handle_remoteObject (handles ! i) = ps ! i \<and>
              (truthy (ro_objectId (ps ! i)) \<longrightarrow>
                 (\<exists>parsed j c. parse (the (ro_objectId (ps ! i))) = Inr parsed \<and>
                    injectedScriptId parsed = Some j \<and> map_of (contextIdToContext s2) j = Some c \<and>
                    handle_context (handles ! i) = contextId c)) \<and>
              (\<not> truthy (ro_objectId (ps ! i)) \<longrightarrow> handle_context (handles ! i) = mc)))) \<and>
   (ps = (case msg_parameters m of None \<Rightarrow> [] | Some xs \<Rightarrow> xs) \<and>
    (\<exists>p \<in> set ps. truthy (ro_objectId p) \<and>
        \<not> (\<exists>parsed i c. parse (the (ro_objectId p)) = Inr parsed \<and> injectedScriptId parsed = Some i \<and>
            map_of (contextIdToContext s2) i = Some c)) \<longrightarrow>
      (\<exists>e. onConsoleMessage_resumed parse m mc s2 = Inl e))"
proof (intro conjI impI)
  assume a: "msg_level m = ''debug'' \<and> msg_parameters m = Some (p0 # p1 # p2 # rest) \<and>
    ro_value p0 = JSString BINDING_CALL_MESSAGE \<and> ro_objectId p1 = Some oid \<and>
    parse oid = Inr parsed"
  then have "isBindingCall m = Inr True" unfolding isBindingCall_def by simp
  then show "onConsoleMessage parse m s =
        Returned (Inr (emit (Page_BindingCalled (ro_value p2)
           (case injectedScriptId parsed of None \<Rightarrow> None
            | Some i \<Rightarrow> map_of (contextIdToContext s) i)) s))"
    using a unfolding onConsoleMessage_def by (simp add: Let_def numeral_2_eq_2)
next
  assume b: "msg_level m \<noteq> ''debug'' \<or> msg_parameters m = None \<or>
    (\<exists>p ps'. msg_parameters m = Some (p # ps') \<and> ro_value p \<noteq> JSString BINDING_CALL_MESSAGE)"
  then have "isBindingCall m = Inr False" unfolding isBindingCall_def by auto
  then show "onConsoleMessage parse m s =
        (case mainFrame s of None \<Rightarrow> Returned (Inl TypeError) | Some f \<Rightarrow> AwaitingExecutionContext f)"
    unfolding onConsoleMessage_def by simp
next
  assume c: "ps = (case msg_parameters m of None \<Rightarrow> [] | Some xs \<Rightarrow> xs) \<and>
    (\<forall>p \<in> set ps. truthy (ro_objectId p) \<longrightarrow>
        (\<exists>parsed i c. parse (the (ro_objectId p)) = Inr parsed \<and> injectedScriptId parsed = Some i \<and>
            map_of (contextIdToContext s2) i = Some c))"
  then have res: "\<forall>p \<in> set ps. truthy (ro_objectId p) \<longrightarrow>
        (\<exists>parsed i c. parse (the (ro_objectId p)) = Inr parsed \<and> injectedScriptId parsed = Some i \<and>
            map_of (contextIdToContext s2) i = Some c)" by blast
  from createHandles_hydrates[OF res, of mc] obtain handles where
    h: "createHandles parse s2 mc ps = Inr handles" "length handles = length ps"
    and hi: "\<forall>i < length ps. handle_remoteObject (handles ! i) = ps ! i \<and>
              (truthy (ro_objectId (ps ! i)) \<longrightarrow>
                 (\<exists>parsed j c. parse (the (ro_objectId (ps ! i))) = Inr parsed \<and>
                    injectedScriptId parsed = Some j \<and> map_of (contextIdToContext s2) j = Some c \<and>
                    handle_context (handles ! i) = contextId c)) \<and>
              (\<not> truthy (ro_objectId (ps ! i)) \<longrightarrow> handle_context (handles ! i) = mc)"
    by blast
  have ps: "(case msg_parameters m of None \<Rightarrow> [] | Some xs \<Rightarrow> xs) = ps" using c by simp
  have "onConsoleMessage_resumed parse m mc s2 =
           Inr (emit (Page_ConsoleMessage (derivedType m) handles
                  \<lparr>loc_url = msg_url m, loc_lineNumber = msg_line m - 1, loc_columnNumber = msg_column m - 1\<rparr>
                  (if handles \<noteq> [] then None else Some (msg_text m))) s2)"
    using h(1) unfolding onConsoleMessage_resumed_def ps by simp
  then show "\<exists>handles. onConsoleMessage_resumed parse m mc s2 =
           Inr (emit (Page_ConsoleMessage (derivedType m) handles
                  \<lparr>loc_url = msg_url m, loc_lineNumber = msg_line m - 1, loc_columnNumber = msg_column m - 1\<rparr>
                  (if handles \<noteq> [] then None else Some (msg_text m))) s2) \<and>
         length handles = length ps \<and>
         (\<forall>i < length ps. handle_remoteObject (handles ! i) = ps ! i \<and>
              (truthy (ro_objectId (ps ! i)) \<longrightarrow>
                 (\<exists>parsed j c. parse (the (ro_objectId (ps ! i))) = Inr parsed \<and>
                    injectedScriptId parsed = Some j \<and> map_of (contextIdToContext s2) j = Some c \<and>
                    handle_context (handles ! i) = contextId c)) \<and>
              (\<not> truthy (ro_objectId (ps ! i)) \<longrightarrow> handle_context (handles ! i) = mc))"
    using h(2) hi by blast
next
  assume d: "ps = (case msg_parameters m of None \<Rightarrow> [] | Some xs \<Rightarrow> xs) \<and>
    (\<exists>p \<in> set ps. truthy (ro_objectId p) \<and>
        \<not> (\<exists>parsed i c. parse (the (ro_objectId p)) = Inr parsed \<and> injectedScriptId parsed = Some i \<and>
            map_of (contextIdToContext s2) i = Some c))"
  then obtain p where p: "p \<in> set ps" "truthy (ro_objectId p)"
      "\<not> (\<exists>parsed i c. parse (the (ro_objectId p)) = Inr parsed \<and> injectedScriptId parsed = Some i \<and>
            map_of (contextIdToContext s2) i = Some c)" by blast
  from createHandles_throws[where parse = parse and s = s2 and mc = mc, OF p] obtain e where "createHandles parse s2 mc ps = Inl e" by blast
  moreover have ps: "(case msg_parameters m of None \<Rightarrow> [] | Some xs \<Rightarrow> xs) = ps" using d by simp
  ultimately show "\<exists>e. onConsoleMessage_resumed parse m mc s2 = Inl e"
    unfolding onConsoleMessage_resumed_def ps by simp
qed

theorem console_routing_witness:
  "msg_level (example_message ''debug'') = ''debug'' \<and>
   msg_parameters (example_message ''debug'') = Some example_parameters \<and>
   example_parse example_objectId = Inr \<lparr>injectedScriptId = Some 7\<rparr> \<and>
   onConsoleMessage example_parse (example_message ''debug'') example_page =
     Returned (Inr (emit (Page_BindingCalled (JSNumber 42) (Some \<lparr>contextId = 7, context_frame = 0\<rparr>)) example_page)) \<and>
   msg_level (example_message ''log'') \<noteq> ''debug'' \<and>
   onConsoleMessage example_parse (example_message ''log'') example_page = AwaitingExecutionContext 0 \<and>
   (\<exists>handles. onConsoleMessage_resumed example_parse (example_message ''log'') 7 example_page =
           Inr (emit (Page_ConsoleMessage ''log'' handles
                  \<lparr>loc_url = ''https://a.example/'', loc_lineNumber = 2, loc_columnNumber = 8\<rparr> None) example_page) \<and>
         length handles = 3 \<and>
         handle_context (handles ! 0) = 7 \<and> handle_context (handles ! 1) = 7 \<and>
         handle_remoteObject (handles ! 1) = \<lparr>ro_value = JSUndefined, ro_objectId = Some example_objectId\<rparr>) \<and>
   (\<exists>e. onConsoleMessage_resumed example_parse (example_message ''log'') 9
      (onExecutionContextCreated
         \<lparr>cp_id = 9, cp_frameId = ''main'', cp_isPageContext = True, cp_name = []\<rparr> example_main) = Inl e)"
proof -
  have res: "\<forall>p \<in> set example_parameters. truthy (ro_objectId p) \<longrightarrow>
        (\<exists>parsed i c. example_parse (the (ro_objectId p)) = Inr parsed \<and> injectedScriptId parsed = Some i \<and>
            map_of (contextIdToContext example_page) i = Some c)"
    unfolding example_parameters_def
    by (simp add: example_parse_def example_page_simps truthy_def)
  have nres: "\<exists>p \<in> set example_parameters. truthy (ro_objectId p) \<and>
        \<not> (\<exists>parsed i c. example_parse (the (ro_objectId p)) = Inr parsed \<and> injectedScriptId parsed = Some i \<and>
            map_of (contextIdToContext (onExecutionContextCreated
         \<lparr>cp_id = 9, cp_frameId = ''main'', cp_isPageContext = True, cp_name = []\<rparr> example_main)) i = Some c)"
    unfolding example_parameters_def
    by (simp add: example_parse_def example_context_replaced truthy_def example_objectId_def)
  have pm: "(case msg_parameters (example_message ''log'') of None \<Rightarrow> [] | Some xs \<Rightarrow> xs) = example_parameters"
    by (simp add: example_message_def)
  have A: "onConsoleMessage example_parse (example_message ''debug'') example_page =
     Returned (Inr (emit (Page_BindingCalled (JSNumber 42) (Some \<lparr>contextId = 7, context_frame = 0\<rparr>)) example_page))"
    using console_routing[where m = "example_message ''debug''"
        and ?p0.0 = "\<lparr>ro_value = JSString BINDING_CALL_MESSAGE, ro_objectId = None\<rparr>"
        and ?p1.0 = "\<lparr>ro_value = JSUndefined, ro_objectId = Some example_objectId\<rparr>"
        and ?p2.0 = "\<lparr>ro_value = JSNumber 42, ro_objectId = None\<rparr>" and rest = "[]"
        and oid = example_objectId and parse = example_parse
        and parsed = "\<lparr>injectedScriptId = Some 7\<rparr>" and s = example_page, THEN conjunct1]
    by (simp add: example_message_def example_parameters_def example_parse_def example_page_simps)
  have B: "onConsoleMessage example_parse (example_message ''log'') example_page = AwaitingExecutionContext 0"
    using console_routing[where m = "example_message ''log''" and parse = example_parse
        and s = example_page, THEN conjunct2, THEN conjunct1]
    by (simp add: example_message_def example_page_simps)
  have C: "\<exists>handles. onConsoleMessage_resumed example_parse (example_message ''log'') 7 example_page =
           Inr (emit (Page_ConsoleMessage (derivedType (example_message ''log'')) handles
                  \<lparr>loc_url = msg_url (example_message ''log''), loc_lineNumber = msg_line (example_message ''log'') - 1,
                    loc_columnNumber = msg_column (example_message ''log'') - 1\<rparr>
                  (if handles \<noteq> [] then None else Some (msg_text (example_message ''log'')))) example_page) \<and>
         length handles = length example_parameters \<and>
         (\<forall>i < length example_parameters. handle_remoteObject (handles ! i) = example_parameters ! i \<and>
              (truthy (ro_objectId (example_parameters ! i)) \<longrightarrow>
                 (\<exists>parsed j c. example_parse (the (ro_objectId (example_parameters ! i))) = Inr parsed \<and>
                    injectedScriptId parsed = Some j \<and> map_of (contextIdToContext example_page) j = Some c \<and>
                    handle_context (handles ! i) = contextId c)) \<and>
              (\<not> truthy (ro_objectId (example_parameters ! i)) \<longrightarrow> handle_context (handles ! i) = 7))"
    using console_routing[where m = "example_message ''log''" and parse = example_parse
        and ?s2.0 = example_page and mc = 7 and ps = example_parameters,
        THEN conjunct2, THEN conjunct2, THEN conjunct1, THEN mp, OF conjI[OF pm[symmetric] res]] .
  then obtain handles where r: "onConsoleMessage_resumed example_parse (example_message ''log'') 7 example_page =
           Inr (emit (Page_ConsoleMessage (derivedType (example_message ''log'')) handles
                  \<lparr>loc_url = msg_url (example_message ''log''), loc_lineNumber = msg_line (example_message ''log'') - 1,
                    loc_columnNumber = msg_column (example_message ''log'') - 1\<rparr>
                  (if handles \<noteq> [] then None else Some (msg_text (example_message ''log'')))) example_page)"
         "length handles = length example_parameters"
     and hi: "\<forall>i < length example_parameters. handle_remoteObject (handles ! i) = example_parameters ! i \<and>
              (truthy (ro_objectId (example_parameters ! i)) \<longrightarrow>
                 (\<exists>parsed j c. example_parse (the (ro_objectId (example_parameters ! i))) = Inr parsed \<and>
                    injectedScriptId parsed = Some j \<and> map_of (contextIdToContext example_page) j = Some c \<and>
                    handle_context (handles ! i) = contextId c)) \<and>
              (\<not> truthy (ro_objectId (example_parameters ! i)) \<longrightarrow> handle_context (handles ! i) = 7)"
    by blast
  have h0: "handle_context (handles ! 0) = 7"
    using hi[rule_format, of 0] by (simp add: example_parameters_def truthy_def)
  have h1: "handle_context (handles ! 1) = 7"
       "handle_remoteObject (handles ! 1) = \<lparr>ro_value = JSUndefined, ro_objectId = Some example_objectId\<rparr>"
    using hi[rule_format, of 1] example_objectId_truthy
    by (auto simp: example_parameters_def example_parse_def example_page_simps)
  have l: "length handles = 3" using r(2) by (simp add: example_parameters_def)
  have ne: "handles \<noteq> []" using l by auto
  have r': "onConsoleMessage_resumed example_parse (example_message ''log'') 7 example_page =
           Inr (emit (Page_ConsoleMessage ''log'' handles
                  \<lparr>loc_url = ''https://a.example/'', loc_lineNumber = 2, loc_columnNumber = 8\<rparr> None) example_page)"
    using r(1) ne by (simp add: derivedType_def example_message_def)
  have E: "\<exists>handles. onConsoleMessage_resumed example_parse (example_message ''log'') 7 example_page =
           Inr (emit (Page_ConsoleMessage ''log'' handles
                  \<lparr>loc_url = ''https://a.example/'', loc_lineNumber = 2, loc_columnNumber = 8\<rparr> None) example_page) \<and>
         length handles = 3 \<and>
         handle_context (handles ! 0) = 7 \<and> handle_context (handles ! 1) = 7 \<and>
         handle_remoteObject (handles ! 1) = \<lparr>ro_value = JSUndefined, ro_objectId = Some example_objectId\<rparr>"
    using r' l h0 h1 by blast
  have D: "\<exists>e. onConsoleMessage_resumed example_parse (example_message ''log'') 9
      (onExecutionContextCreated
         \<lparr>cp_id = 9, cp_frameId = ''main'', cp_isPageContext = True, cp_name = []\<rparr> example_main) = Inl e"
    using console_routing[where m = "example_message ''log''" and parse = example_parse
        and ?s2.0 = "onExecutionContextCreated
         \<lparr>cp_id = 9, cp_frameId = ''main'', cp_isPageContext = True, cp_name = []\<rparr> example_main"
        and mc = 9 and ps = example_parameters,
        THEN conjunct2, THEN conjunct2, THEN conjunct2, THEN mp, OF conjI[OF pm[symmetric] nres]] .
  show ?thesis
    using A B E D
    by (simp add: example_message_def example_parse_def)
qed

text \<open>
  C2. In every reachable state, \<open>_onFrameDetached\<close> for an id that is not registered changes
  nothing. For a registered frame it returns; the events it emits are exactly the
  \<open>FrameDetached\<close> events of the manager and of the page for the nodes of the frame's
  subtree in postorder, each node once: the frame's descendants first, the frame itself
  last, so one pair of events for each of the N descendants and one for the frame, and
  every child's event before its parent's. Afterwards the id of every node of the subtree
  is unregistered.
\<close>

theorem recursive_detach:
  assumes "reachable s"
  shows "(frame frameId s = None \<longrightarrow> onFrameDetached frameId s = Inr s) \<and>
         (\<forall>f. frame frameId s = Some f \<longrightarrow>
            (\<exists>s'. onFrameDetached frameId s = Inr s' \<and>
               subtreeOf (heap s) (frameTree s f) \<and> root (frameTree s f) = f \<and>
               postorder (frameTree s f) = descendants (frameTree s f) @ [f] \<and>
               distinct (postorder (frameTree s f)) \<and>
               emitted s' = emitted s @ detachEvents (postorder (frameTree s f)) \<and>
               (\<forall>p \<in> set (postorder (frameTree s f)). \<forall>c \<in> set (childFrames (heap s ! p)).
                    c \<in> set (postorder (frameTree s f)) \<and>
                    precedes (FM_FrameDetached c) (FM_FrameDetached p)
                       (detachEvents (postorder (frameTree s f)))) \<and>
               (\<forall>h \<in> set (postorder (frameTree s f)). frame (frameData_id h s) s' = None)))"
proof (intro conjI impI allI)
  assume "frame frameId s = None"
  then show "onFrameDetached frameId s = Inr s" unfolding frame_def onFrameDetached_def by simp
next
  fix f assume f: "frame frameId s = Some f"
  have inv: "invariant s" using assms reachable_invariant by blast
  then have ok: "heap_ok (heap s)" unfolding invariant_def by simp
  have fv: "f < length (heap s)" using inv f unfolding invariant_def registry_ok_def frame_def by blast
  let ?t = "frameTree s f"
  have rt: "root ?t = f" unfolding frameTree_def by simp
  have st: "subtreeOf (heap s) ?t"
    unfolding frameTree_def using treeFrom_subtreeOf[OF ok fv] by simp
  obtain s' where run: "removeFramesRecursively (length (heap s)) f s = Some s'"
    using removal_returns(1)[of s f "length (heap s)"] inv fv by auto
  then have od: "onFrameDetached frameId s = Inr s'"
    using f unfolding onFrameDetached_def frame_def by simp
  have ev: "emitted s' = emitted s @ detachEvents (postorder ?t)"
    using removal_events(1)[of "length (heap s)" f s s'] run inv st rt by blast
  have un: "\<forall>h \<in> set (postorder ?t). frame (frameData_id h s) s' = None"
    using removal_unregisters(1)[of "length (heap s)" f s s'] run inv st rt
    unfolding frame_def frameData_id_def by blast
  have di: "distinct (postorder ?t)" using distinct_postorder[OF ok st] .
  have po: "postorder ?t = descendants ?t @ [f]" using postorder_descendants[of ?t] rt by simp
  have pr: "\<forall>p \<in> set (postorder ?t). \<forall>c \<in> set (childFrames (heap s ! p)).
                    c \<in> set (postorder ?t) \<and>
                    precedes (FM_FrameDetached c) (FM_FrameDetached p) (detachEvents (postorder ?t))"
  proof (intro ballI)
    fix p c assume "p \<in> set (postorder ?t)" "c \<in> set (childFrames (heap s ! p))"
    then have "precedes c p (postorder ?t)" using children_precede[OF st _ _ di] by blast
    then show "c \<in> set (postorder ?t) \<and>
                    precedes (FM_FrameDetached c) (FM_FrameDetached p) (detachEvents (postorder ?t))"
      using precedes_member[of c p "postorder ?t"] precedes_detachEvents[of c p "postorder ?t"] by simp
  qed
  show "\<exists>s'. onFrameDetached frameId s = Inr s' \<and>
               subtreeOf (heap s) (frameTree s f) \<and> root (frameTree s f) = f \<and>
               postorder (frameTree s f) = descendants (frameTree s f) @ [f] \<and>
               distinct (postorder (frameTree s f)) \<and>
               emitted s' = emitted s @ detachEvents (postorder (frameTree s f)) \<and>
               (\<forall>p \<in> set (postorder (frameTree s f)). \<forall>c \<in> set (childFrames (heap s ! p)).
                    c \<in> set (postorder (frameTree s f)) \<and>
                    precedes (FM_FrameDetached c) (FM_FrameDetached p)
                       (detachEvents (postorder (frameTree s f)))) \<and>
               (\<forall>h \<in> set (postorder (frameTree s f)). frame (frameData_id h s) s' = None)"
    using od st rt po di ev pr un by blast
qed

theorem recursive_detach_witness:
  "reachable example_page \<and> frame ''main'' example_page = Some 0 \<and>
   frame ''child'' example_page = Some 1 \<and> frame ''gone'' example_page = None \<and>
   descendants (frameTree example_page 0) = [1] \<and>
   onFrameDetached ''gone'' example_page = Inr example_page \<and>
   (\<exists>s'. onFrameDetached ''main'' example_page = Inr s' \<and>
      emitted s' = emitted example_page @
         [FM_FrameDetached 1, Page_FrameDetached 1, FM_FrameDetached 0, Page_FrameDetached 0] \<and>
      precedes (FM_FrameDetached 1) (FM_FrameDetached 0)
         [FM_FrameDetached 1, Page_FrameDetached 1, FM_FrameDetached 0, Page_FrameDetached 0] \<and>
      frame ''main'' s' = None \<and> frame ''child'' s' = None)"
proof -
  note r = recursive_detach[OF reachable_example_page]
  have g: "onFrameDetached ''gone'' example_page = Inr example_page"
    using r[of "''gone''"] by (simp add: frame_def example_page_simps)
  have m: "frame ''main'' example_page = Some 0" by (simp add: frame_def example_page_simps)
  from r[of "''main''"] m obtain s' where
    s': "onFrameDetached ''main'' example_page = Inr s'"
    and ev: "emitted s' = emitted example_page @ detachEvents (postorder (frameTree example_page 0))"
    and pr: "\<forall>p \<in> set (postorder (frameTree example_page 0)). \<forall>c \<in> set (childFrames (heap example_page ! p)).
                    c \<in> set (postorder (frameTree example_page 0)) \<and>
                    precedes (FM_FrameDetached c) (FM_FrameDetached p)
                       (detachEvents (postorder (frameTree example_page 0)))"
    and un: "\<forall>h \<in> set (postorder (frameTree example_page 0)). frame (frameData_id h example_page) s' = None"
    by blast
  have po: "postorder (frameTree example_page 0) = [Suc 0, 0]" by (simp add: example_page_tree)
  have de: "detachEvents [Suc 0, 0] =
      [FM_FrameDetached 1, Page_FrameDetached 1, FM_FrameDetached 0, Page_FrameDetached 0]"
    by (simp add: detachEvents_def)
  have 1: "emitted s' = emitted example_page @
         [FM_FrameDetached 1, Page_FrameDetached 1, FM_FrameDetached 0, Page_FrameDetached 0]"
    using ev po de by simp
  have 2: "precedes (FM_FrameDetached 1) (FM_FrameDetached 0)
         [FM_FrameDetached 1, Page_FrameDetached 1, FM_FrameDetached 0, Page_FrameDetached 0]"
    using pr[rule_format, of 0 "Suc 0"] po de by (simp add: example_page_frames)
  have 3: "frame ''main'' s' = None" "frame ''child'' s' = None"
    using un po by (simp_all add: frameData_id_def example_page_frames)
  have 4: "descendants (frameTree example_page 0) = [1]" by (simp add: example_page_tree)
  show ?thesis
    using reachable_example_page m g s' 1 2 3 4 by (simp add: frame_def example_page_simps)
qed

end
